theory Spec2Isabelle
  imports Complex_Main
begin

section \<open>Python values, exceptions and the arithmetic the engine relies on\<close>

text \<open>
  The engine (\<^verbatim>\<open>engine.py\<close>) is a single class \<^verbatim>\<open>Value\<close>. Its objects live on the
  Python heap, are shared by reference and are mutated in place (\<^verbatim>\<open>grad\<close>), so the
  embedding uses an explicit store: a list of nodes, the address of an object being its
  position in the list. Allocation appends, so addresses are handed out in construction
  order.

  Numbers. Python's \<^verbatim>\<open>int\<close> and \<^verbatim>\<open>float\<close> are both embedded into \<open>real\<close>: rounding,
  infinities and NaN of IEEE-754 arithmetic are not modelled. Of the overflows, only that
  of \<^verbatim>\<open>math.exp\<close>, which raises \<^verbatim>\<open>OverflowError\<close>, is modelled (a \<^verbatim>\<open>float\<close> power out of
  range raises it too, an \<^verbatim>\<open>int\<close> power never does, and the two are one type here). A \<^verbatim>\<open>data\<close>
  attribute may hold any Python object; \<open>NotNum\<close> stands for an object that is neither an
  \<^verbatim>\<open>int\<close> nor a \<^verbatim>\<open>float\<close> and supports no arithmetic (such as \<^verbatim>\<open>None\<close>): every
  arithmetic primitive raises \<^verbatim>\<open>TypeError\<close> on it.
\<close>

datatype error = TypeError | ZeroDivisionError | AssertionError | OverflowError | ComplexResult

datatype pyval = Num real | NotNum

type_synonym ref = nat

text \<open>An argument of an operator: a \<^verbatim>\<open>Value\<close> object (by reference) or a plain Python object.\<close>

datatype operand = Ref ref | Lit pyval

text \<open>\<^verbatim>\<open>isinstance(x, Value)\<close> and \<^verbatim>\<open>isinstance(x, (int, float))\<close>.\<close>

fun is_Value :: "operand \<Rightarrow> bool" where
  "is_Value (Ref r) = True"
| "is_Value (Lit v) = False"

fun is_number :: "operand \<Rightarrow> bool" where
  "is_number (Lit (Num x)) = True"
| "is_number (Lit NotNum) = False"
| "is_number (Ref r) = False"

text \<open>\<^verbatim>\<open>a + b\<close> and \<^verbatim>\<open>a * b\<close> on two \<^verbatim>\<open>data\<close> attributes.\<close>

fun py_add :: "pyval \<Rightarrow> pyval \<Rightarrow> error + real" where
  "py_add (Num a) (Num b) = Inr (a + b)"
| "py_add NotNum b = Inl TypeError"
| "py_add a NotNum = Inl TypeError"

fun py_mul :: "pyval \<Rightarrow> pyval \<Rightarrow> error + real" where
  "py_mul (Num a) (Num b) = Inr (a * b)"
| "py_mul NotNum b = Inl TypeError"
| "py_mul a NotNum = Inl TypeError"

text \<open>
  \<^verbatim>\<open>x ** p\<close> for numbers. Python raises \<^verbatim>\<open>ZeroDivisionError\<close> for a zero base with a
  negative exponent. For an integral exponent the result is the integer power. Otherwise a
  negative base gives a \<^verbatim>\<open>complex\<close> result in Python; complex data lies outside the
  real-valued data model, and the embedding stops there with the outcome \<open>ComplexResult\<close>.
  A zero base with a positive exponent gives zero.
\<close>

definition float_pow :: "real \<Rightarrow> real \<Rightarrow> error + real" where
  "float_pow x p =
     (if x = 0 \<and> p < 0 then Inl ZeroDivisionError
      else if p = of_int \<lfloor>p\<rfloor> then Inr (x powi \<lfloor>p\<rfloor>)
      else if x < 0 then Inl ComplexResult
      else if x = 0 then Inr 0
      else Inr (x powr p))"

fun py_pow :: "pyval \<Rightarrow> real \<Rightarrow> error + real" where
  "py_pow (Num x) p = float_pow x p"
| "py_pow NotNum p = Inl TypeError"

text \<open>\<^verbatim>\<open>x > 0\<close>, unary minus \<^verbatim>\<open>-x\<close>, and the coercion to a float that \<^verbatim>\<open>math.tanh\<close> and
  \<^verbatim>\<open>math.exp\<close> apply to their argument.\<close>

fun py_gt0 :: "pyval \<Rightarrow> error + bool" where
  "py_gt0 (Num x) = Inr (x > 0)"
| "py_gt0 NotNum = Inl TypeError"

fun py_neg :: "pyval \<Rightarrow> error + real" where
  "py_neg (Num x) = Inr (- x)"
| "py_neg NotNum = Inl TypeError"

fun py_float :: "pyval \<Rightarrow> error + real" where
  "py_float (Num x) = Inr x"
| "py_float NotNum = Inl TypeError"

text \<open>
  \<^verbatim>\<open>math.exp(x)\<close> raises \<^verbatim>\<open>OverflowError\<close> when the result is beyond the largest finite
  double, \<open>(2\<^sup>5\<^sup>3 - 1) * 2\<^sup>9\<^sup>7\<^sup>1\<close> (for \<open>x\<close> above about 709.78); the rounding at the very
  boundary is not modelled. A result too small for a double is \<open>0.0\<close>, without an error.
\<close>

definition float_max :: real where
  "float_max = (2 ^ 53 - 1) * 2 ^ 971"

definition math_exp :: "pyval \<Rightarrow> error + real" where
  "math_exp d =
     (case py_float d of
        Inl e \<Rightarrow> Inl e
      | Inr x \<Rightarrow> if exp x > float_max then Inl OverflowError else Inr (exp x))"

section \<open>Nodes and the heap\<close>

text \<open>
  The closures stored in \<^verbatim>\<open>_backward\<close>. Each constructor is one \<^verbatim>\<open>def _backward()\<close> of the
  source (or the initial \<^verbatim>\<open>lambda: None\<close>) together with the variables it captures:
  references to \<^verbatim>\<open>self\<close>, \<^verbatim>\<open>other\<close> and \<^verbatim>\<open>out\<close>, and the locals \<^verbatim>\<open>data\<close>, \<^verbatim>\<open>alpha\<close>
  and \<^verbatim>\<open>power\<close>.
\<close>

datatype closure =
    Noop
  | LinearBackward ref ref
  | TanhBackward ref ref real
  | LeakyReluBackward ref ref real
  | ReluBackward ref ref real
  | SigmoidBackward ref ref real
  | ExpBackward ref ref real
  | AddBackward ref ref ref
  | MulBackward ref ref ref
  | PowBackward ref ref real

text \<open>The \<^verbatim>\<open>_operation\<close> tag (a string in the source, \<^verbatim>\<open>''\<close> for a leaf).\<close>

datatype optag =
    OpLeaf | OpLinear | OpTanh | OpLeakyRelu | OpRelu | OpSigmoid | OpExp
  | OpAdd | OpMul | OpPow real

record node =
  data :: pyval
  grad :: real
  label :: string
  children :: "ref list"
  node_backward :: closure
  operation :: optag

type_synonym heap = "node list"

definition data_of :: "heap \<Rightarrow> ref \<Rightarrow> pyval" where
  "data_of h r = data (h ! r)"

definition grad_of :: "heap \<Rightarrow> ref \<Rightarrow> real" where
  "grad_of h r = grad (h ! r)"

text \<open>\<^verbatim>\<open>v._children\<close>. A reference always denotes an object in Python; for an address
  outside the store the embedding answers with no children.\<close>

definition children_of :: "heap \<Rightarrow> ref \<Rightarrow> ref list" where
  "children_of h r = (if r < length h then children (h ! r) else [])"

text \<open>\<^verbatim>\<open>r.grad = g\<close>, \<^verbatim>\<open>r.grad += d\<close> and \<^verbatim>\<open>r._backward = c\<close>.\<close>

definition set_grad :: "heap \<Rightarrow> ref \<Rightarrow> real \<Rightarrow> heap" where
  "set_grad h r g = h[r := (h ! r)\<lparr>grad := g\<rparr>]"

definition add_grad :: "heap \<Rightarrow> ref \<Rightarrow> real \<Rightarrow> heap" where
  "add_grad h r d = h[r := (h ! r)\<lparr>grad := grad (h ! r) + d\<rparr>]"

definition set_backward :: "heap \<Rightarrow> ref \<Rightarrow> closure \<Rightarrow> heap" where
  "set_backward h r c = h[r := (h ! r)\<lparr>node_backward := c\<rparr>]"

text \<open>\<^verbatim>\<open>Value.__init__\<close>: allocates the object and returns its address.\<close>

definition Value_init :: "heap \<Rightarrow> pyval \<Rightarrow> ref list \<Rightarrow> optag \<Rightarrow> ref \<times> heap" where
  "Value_init h d cs tag =
     (length h,
      h @ [\<lparr>data = d, grad = 0, label = [], children = cs,
            node_backward = Noop, operation = tag\<rparr>])"

text \<open>\<^verbatim>\<open>Value(x)\<close> with the default arguments: a leaf.\<close>

definition Value :: "heap \<Rightarrow> pyval \<Rightarrow> ref \<times> heap" where
  "Value h d = Value_init h d [] OpLeaf"

text \<open>The node \<^verbatim>\<open>Value(d)\<close> allocates.\<close>

definition leaf :: "pyval \<Rightarrow> node" where
  "leaf d = \<lparr>data = d, grad = 0, label = [], children = [], node_backward = Noop,
              operation = OpLeaf\<rparr>"

section \<open>The operations\<close>

text \<open>
  Every operation returns the heap together with either the address of the new node or
  the exception raised. The heap is returned in both cases: an object allocated before
  the exception stays allocated. An \<^verbatim>\<open>assert\<close> that fails raises \<^verbatim>\<open>AssertionError\<close>
  (the interpreter runs with assertions enabled). The argument \<^verbatim>\<open>alpha\<close> of
  \<^verbatim>\<open>leaky_relu\<close> is a number.
\<close>

type_synonym 'a result = "(error + 'a) \<times> heap"

definition linear_value :: "heap \<Rightarrow> ref \<Rightarrow> ref result" where
  "linear_value h self =
     (let (out, h1) = Value_init h (data_of h self) [self] OpLinear
      in (Inr out, set_backward h1 out (LinearBackward self out)))"

definition tanh_value :: "heap \<Rightarrow> ref \<Rightarrow> ref result" where
  "tanh_value h self =
     (case py_float (data_of h self) of
        Inl e \<Rightarrow> (Inl e, h)
      | Inr x \<Rightarrow>
          (let d = tanh x;
               (out, h1) = Value_init h (Num d) [self] OpTanh
           in (Inr out, set_backward h1 out (TanhBackward self out d))))"

definition leaky_relu :: "heap \<Rightarrow> ref \<Rightarrow> real \<Rightarrow> ref result" where
  "leaky_relu h self alpha =
     (case py_gt0 (data_of h self) of
        Inl e \<Rightarrow> (Inl e, h)
      | Inr pos \<Rightarrow>
          (case (if pos then py_float (data_of h self)
                 else py_mul (data_of h self) (Num alpha)) of
             Inl e \<Rightarrow> (Inl e, h)
           | Inr d \<Rightarrow>
               (let (out, h1) = Value_init h (Num d) [self] OpLeakyRelu
                in (Inr out, set_backward h1 out (LeakyReluBackward self out alpha)))))"

definition relu :: "heap \<Rightarrow> ref \<Rightarrow> ref result" where
  "relu h self =
     (case py_gt0 (data_of h self) of
        Inl e \<Rightarrow> (Inl e, h)
      | Inr pos \<Rightarrow>
          (case (if pos then py_float (data_of h self) else Inr 0) of
             Inl e \<Rightarrow> (Inl e, h)
           | Inr d \<Rightarrow>
               (let (out, h1) = Value_init h (Num d) [self] OpRelu
                in (Inr out, set_backward h1 out (ReluBackward self out d)))))"

definition sigmoid :: "heap \<Rightarrow> ref \<Rightarrow> ref result" where
  "sigmoid h self =
     (case py_neg (data_of h self) of
        Inl e \<Rightarrow> (Inl e, h)
      | Inr m \<Rightarrow>
          (case math_exp (Num m) of
             Inl e \<Rightarrow> (Inl e, h)
           | Inr ex \<Rightarrow>
               (let d = 1 / (1 + ex);
                    (out, h1) = Value_init h (Num d) [self] OpSigmoid
                in (Inr out, set_backward h1 out (SigmoidBackward self out d)))))"

definition exp_value :: "heap \<Rightarrow> ref \<Rightarrow> ref result" where
  "exp_value h self =
     (case math_exp (data_of h self) of
        Inl e \<Rightarrow> (Inl e, h)
      | Inr d \<Rightarrow>
          (let (out, h1) = Value_init h (Num d) [self] OpExp
           in (Inr out, set_backward h1 out (ExpBackward self out d))))"

text \<open>\<^verbatim>\<open>other if isinstance(other, Value) else Value(other)\<close>.\<close>

fun promote :: "heap \<Rightarrow> operand \<Rightarrow> ref \<times> heap" where
  "promote h (Ref r) = (r, h)"
| "promote h (Lit v) = Value h v"

definition Value_add :: "heap \<Rightarrow> ref \<Rightarrow> operand \<Rightarrow> ref result" where
  "Value_add h self other =
     (let (other', h1) = promote h other
      in case py_add (data_of h1 self) (data_of h1 other') of
           Inl e \<Rightarrow> (Inl e, h1)
         | Inr d \<Rightarrow>
             (let (out, h2) = Value_init h1 (Num d) [self, other'] OpAdd
              in (Inr out, set_backward h2 out (AddBackward self other' out))))"

definition Value_mul :: "heap \<Rightarrow> ref \<Rightarrow> operand \<Rightarrow> ref result" where
  "Value_mul h self other =
     (let (other', h1) = promote h other
      in case py_mul (data_of h1 self) (data_of h1 other') of
           Inl e \<Rightarrow> (Inl e, h1)
         | Inr d \<Rightarrow>
             (let (out, h2) = Value_init h1 (Num d) [self, other'] OpMul
              in (Inr out, set_backward h2 out (MulBackward self other' out))))"

definition Value_pow :: "heap \<Rightarrow> ref \<Rightarrow> operand \<Rightarrow> ref result" where
  "Value_pow h self power_arg =
     (case power_arg of
        Lit (Num p) \<Rightarrow>
          (case py_pow (data_of h self) p of
             Inl e \<Rightarrow> (Inl e, h)
           | Inr d \<Rightarrow>
               (let (out, h1) = Value_init h (Num d) [self] (OpPow p)
                in (Inr out, set_backward h1 out (PowBackward self out p))))
      | _ \<Rightarrow> (Inl AssertionError, h))"

definition Value_radd :: "heap \<Rightarrow> ref \<Rightarrow> operand \<Rightarrow> ref result" where
  "Value_radd h self other =
     (if is_number other then Value_add h self other else (Inl AssertionError, h))"

definition Value_rmul :: "heap \<Rightarrow> ref \<Rightarrow> operand \<Rightarrow> ref result" where
  "Value_rmul h self other =
     (if is_number other then Value_mul h self other else (Inl AssertionError, h))"

definition Value_neg :: "heap \<Rightarrow> ref \<Rightarrow> ref result" where
  "Value_neg h self = Value_mul h self (Lit (Num (- 1)))"

text \<open>
  The first two lines of \<^verbatim>\<open>__sub__\<close> and \<^verbatim>\<open>__truediv__\<close>: the assertion
  \<^verbatim>\<open>isinstance(other, (int, float, Value))\<close> (\<open>None\<close> when it fails) followed by
  \<^verbatim>\<open>Value(other) if isinstance(other, (int, float)) else other\<close>.
\<close>

fun promote_number :: "heap \<Rightarrow> operand \<Rightarrow> (ref \<times> heap) option" where
  "promote_number h (Ref r) = Some (r, h)"
| "promote_number h (Lit (Num x)) = Some (Value h (Num x))"
| "promote_number h (Lit NotNum) = None"

definition Value_sub :: "heap \<Rightarrow> ref \<Rightarrow> operand \<Rightarrow> ref result" where
  "Value_sub h self other =
     (case promote_number h other of
        None \<Rightarrow> (Inl AssertionError, h)
      | Some (other', h1) \<Rightarrow>
          (case Value_neg h1 other' of
             (Inl e, h2) \<Rightarrow> (Inl e, h2)
           | (Inr negated, h2) \<Rightarrow> Value_add h2 self (Ref negated)))"

definition Value_rsub :: "heap \<Rightarrow> ref \<Rightarrow> operand \<Rightarrow> ref result" where
  "Value_rsub h self other = Value_sub h self other"

definition Value_truediv :: "heap \<Rightarrow> ref \<Rightarrow> operand \<Rightarrow> ref result" where
  "Value_truediv h self other =
     (case promote_number h other of
        None \<Rightarrow> (Inl AssertionError, h)
      | Some (other', h1) \<Rightarrow>
          (case Value_pow h1 other' (Lit (Num (- 1))) of
             (Inl e, h2) \<Rightarrow> (Inl e, h2)
           | (Inr recip, h2) \<Rightarrow> Value_mul h2 self (Ref recip)))"

section \<open>Calling a stored closure\<close>

text \<open>
  \<^verbatim>\<open>n._backward()\<close>. A statement \<^verbatim>\<open>x.grad += e\<close> evaluates \<^verbatim>\<open>e\<close> and then stores;
  when \<^verbatim>\<open>e\<close> raises, nothing is stored and the closure is left. The two statements of
  the closures of \<^verbatim>\<open>__add__\<close> and \<^verbatim>\<open>__mul__\<close> run one after the other, the second
  on the heap the first has updated.
\<close>

fun call_backward :: "heap \<Rightarrow> closure \<Rightarrow> (error + unit) \<times> heap" where
  "call_backward h Noop = (Inr (), h)"
| "call_backward h (LinearBackward self out) =
     (Inr (), add_grad h self (grad_of h out * 1))"
| "call_backward h (TanhBackward self out d) =
     (Inr (), add_grad h self (grad_of h out * (1 - d ^ 2)))"
| "call_backward h (LeakyReluBackward self out alpha) =
     (case py_gt0 (data_of h self) of
        Inl e \<Rightarrow> (Inl e, h)
      | Inr pos \<Rightarrow> (Inr (), add_grad h self (grad_of h out * (if pos then 1 else alpha))))"
| "call_backward h (ReluBackward self out d) =
     (Inr (), add_grad h self (grad_of h out * (if d > 0 then 1 else 0)))"
| "call_backward h (SigmoidBackward self out d) =
     (Inr (), add_grad h self (grad_of h out * d * (1 - d)))"
| "call_backward h (ExpBackward self out d) =
     (Inr (), add_grad h self (grad_of h out * d))"
| "call_backward h (AddBackward self other out) =
     (let h1 = add_grad h self (grad_of h out * 1)
      in (Inr (), add_grad h1 other (grad_of h1 out * 1)))"
| "call_backward h (MulBackward self other out) =
     (case py_mul (Num (grad_of h out)) (data_of h other) of
        Inl e \<Rightarrow> (Inl e, h)
      | Inr d1 \<Rightarrow>
          (let h1 = add_grad h self d1
           in case py_mul (Num (grad_of h1 out)) (data_of h1 self) of
                Inl e \<Rightarrow> (Inl e, h1)
              | Inr d2 \<Rightarrow> (Inr (), add_grad h1 other d2)))"
| "call_backward h (PowBackward self out p) =
     (case py_pow (data_of h self) (p - 1) of
        Inl e \<Rightarrow> (Inl e, h)
      | Inr q \<Rightarrow> (Inr (), add_grad h self (grad_of h out * p * q)))"

section \<open>Backward propagation\<close>

text \<open>
  The nested function \<^verbatim>\<open>build_graph\<close> of \<^verbatim>\<open>backward\<close>, with the two variables it
  updates, \<^verbatim>\<open>visited\<close> and \<^verbatim>\<open>nodes\<close>, passed as state; \<open>build_children\<close> is its
  loop \<^verbatim>\<open>for c in v._children: build_graph(c)\<close>. The set \<^verbatim>\<open>visited\<close> holds objects
  by identity, that is, addresses. The bound the Python interpreter puts on the depth of
  recursion is not modelled.
\<close>

function build_graph :: "heap \<Rightarrow> ref \<Rightarrow> ref set \<times> ref list \<Rightarrow> ref set \<times> ref list"
  and build_children :: "heap \<Rightarrow> ref list \<Rightarrow> ref set \<times> ref list \<Rightarrow> ref set \<times> ref list"
where
  "build_graph h v (visited, nodes) =
     (if v \<notin> visited then
        (let (visited', nodes') =
               build_children h (children_of h v) (insert v visited, nodes)
         in (visited', nodes' @ [v]))
      else (visited, nodes))"
| "build_children h [] st = st"
| "build_children h (c # cs) st = build_children h cs (build_graph h c st)"
  by pat_completeness auto

text \<open>
  Termination: every call of \<open>build_graph\<close> on an unvisited node of the store marks it
  visited, and \<open>visited\<close> never shrinks, so the number of unvisited nodes of the store
  decreases along the recursion (the list of children still to do decreases otherwise).
\<close>

lemma build_dom_mono:
  "build_graph_build_children_dom (Inl (h, v, st)) \<Longrightarrow> fst st \<subseteq> fst (build_graph h v st)"
  "build_graph_build_children_dom (Inr (h, cs, st)) \<Longrightarrow> fst st \<subseteq> fst (build_children h cs st)"
proof (induction h v st and h cs st rule: build_graph_build_children.pinduct)
  case (1 h v visited nodes)
  then show ?case
    by (auto simp: build_graph.psimps split: prod.splits)
next
  case (2 h st)
  then show ?case by (simp add: build_children.psimps)
next
  case (3 h c cs st)
  then show ?case by (auto simp: build_children.psimps)
qed

termination build_graph
proof (relation "inv_image (less_than <*lex*> less_than)
         (\<lambda>x. case x of
                 Inl (h, v, st) \<Rightarrow> (card ({..<length h} - fst st), 1::nat)
               | Inr (h, cs, st) \<Rightarrow> (card ({..<length h} - fst st), 2 * length cs))", goal_cases)
  case 1
  then show ?case by auto
next
  case (2 h v visited nodes)
  show ?case
  proof (cases "v < length h")
    case True
    have "card ({..<length h} - insert v visited) < card ({..<length h} - visited)"
      using True 2 by (intro psubset_card_mono) auto
    then show ?thesis by simp
  next
    case False
    then show ?thesis by (simp add: children_of_def)
  qed
next
  case (3 h c cs st)
  then show ?case by simp
next
  case (4 h c cs st)
  have "fst st \<subseteq> fst (build_graph h c st)" using 4 build_dom_mono(1) by blast
  then have "card ({..<length h} - fst (build_graph h c st)) \<le> card ({..<length h} - fst st)"
    by (intro card_mono) auto
  then show ?case by auto
qed

declare build_graph.simps [simp del]

text \<open>
  The loop \<^verbatim>\<open>for n in reversed(nodes): n._backward()\<close>. It ends at the first closure
  that raises. The last component is not in the source: it lists the nodes whose
  \<^verbatim>\<open>_backward\<close> has been called so far, in the order of the calls, so that statements
  about the invocations can be made.
\<close>

fun backward_loop :: "heap \<Rightarrow> ref list \<Rightarrow> ref list \<Rightarrow> (error + unit) \<times> heap \<times> ref list" where
  "backward_loop h [] called = (Inr (), h, called)"
| "backward_loop h (n # ns) called =
     (case call_backward h (node_backward (h ! n)) of
        (Inl e, h') \<Rightarrow> (Inl e, h', called @ [n])
      | (Inr u, h') \<Rightarrow> backward_loop h' ns (called @ [n]))"

text \<open>The list \<^verbatim>\<open>reversed(nodes)\<close> that \<^verbatim>\<open>backward\<close> iterates over.\<close>

definition backward_order :: "heap \<Rightarrow> ref \<Rightarrow> ref list" where
  "backward_order h self = rev (snd (build_graph h self ({}, [])))"

text \<open>\<^verbatim>\<open>Value.backward\<close>.\<close>

definition backward :: "heap \<Rightarrow> ref \<Rightarrow> (error + unit) \<times> heap \<times> ref list" where
  "backward h self =
     (let (visited, nodes) = build_graph h self ({}, []);
          h1 = set_grad h self 1
      in backward_loop h1 (rev nodes) [])"

definition outcome_of :: "(error + unit) \<times> heap \<times> ref list \<Rightarrow> error + unit" where
  "outcome_of r = fst r"

definition heap_of :: "(error + unit) \<times> heap \<times> ref list \<Rightarrow> heap" where
  "heap_of r = fst (snd r)"

definition calls_of :: "(error + unit) \<times> heap \<times> ref list \<Rightarrow> ref list" where
  "calls_of r = snd (snd r)"


section \<open>The graph of a heap\<close>

text \<open>The child relation of the store and the nodes reachable from a node through it.\<close>

definition edges :: "heap \<Rightarrow> (ref \<times> ref) set" where
  "edges h = {(n, c). c \<in> set (children_of h n)}"

definition reachable :: "heap \<Rightarrow> ref \<Rightarrow> ref set" where
  "reachable h r = {n. (r, n) \<in> (edges h)\<^sup>*}"

text \<open>
  What the constructors establish for the node at address \<open>n\<close>: its children were
  allocated before it (so the graph is acyclic and every reference is in the store), and
  its closure captures the node itself as \<^verbatim>\<open>out\<close> and its children as \<^verbatim>\<open>self\<close> and
  \<^verbatim>\<open>other\<close>.
\<close>

fun closure_ok :: "ref \<Rightarrow> ref list \<Rightarrow> closure \<Rightarrow> bool" where
  "closure_ok n cs Noop = True"
| "closure_ok n cs (LinearBackward self out) = (out = n \<and> cs = [self])"
| "closure_ok n cs (TanhBackward self out d) = (out = n \<and> cs = [self])"
| "closure_ok n cs (LeakyReluBackward self out alpha) = (out = n \<and> cs = [self])"
| "closure_ok n cs (ReluBackward self out d) = (out = n \<and> cs = [self])"
| "closure_ok n cs (SigmoidBackward self out d) = (out = n \<and> cs = [self])"
| "closure_ok n cs (ExpBackward self out d) = (out = n \<and> cs = [self])"
| "closure_ok n cs (AddBackward self other out) = (out = n \<and> cs = [self, other])"
| "closure_ok n cs (MulBackward self other out) = (out = n \<and> cs = [self, other])"
| "closure_ok n cs (PowBackward self out p) = (out = n \<and> cs = [self])"

definition wf_node :: "ref \<Rightarrow> node \<Rightarrow> bool" where
  "wf_node n nd =
     ((\<forall>c \<in> set (children nd). c < n) \<and> closure_ok n (children nd) (node_backward nd))"

definition wf_heap :: "heap \<Rightarrow> bool" where
  "wf_heap h = (\<forall>n < length h. wf_node n (h ! n))"

text \<open>The nodes a closure writes to.\<close>

fun targets :: "closure \<Rightarrow> ref set" where
  "targets Noop = {}"
| "targets (LinearBackward self out) = {self}"
| "targets (TanhBackward self out d) = {self}"
| "targets (LeakyReluBackward self out alpha) = {self}"
| "targets (ReluBackward self out d) = {self}"
| "targets (SigmoidBackward self out d) = {self}"
| "targets (ExpBackward self out d) = {self}"
| "targets (AddBackward self other out) = {self, other}"
| "targets (MulBackward self other out) = {self, other}"
| "targets (PowBackward self out p) = {self}"

text \<open>A node with its gradient blanked: two nodes agree on every field but \<^verbatim>\<open>grad\<close>
  when their images are equal.\<close>

definition forget_grad :: "node \<Rightarrow> node" where
  "forget_grad nd = nd\<lparr>grad := 0\<rparr>"

text \<open>A list in which every node comes after all its children, the nodes of \<open>S\<close> counting
  as already listed.\<close>

fun children_first :: "heap \<Rightarrow> ref set \<Rightarrow> ref list \<Rightarrow> bool" where
  "children_first h S [] = True"
| "children_first h S (x # xs) =
     (set (children_of h x) \<subseteq> S \<and> children_first h (insert x S) xs)"

text \<open>\<open>a\<close> occurs in the list at a position strictly before one of \<open>b\<close>.\<close>

definition precedes :: "'a list \<Rightarrow> 'a \<Rightarrow> 'a \<Rightarrow> bool" where
  "precedes xs a b = (\<exists>i j. i < j \<and> j < length xs \<and> xs ! i = a \<and> xs ! j = b)"

section \<open>The gradient by the chain rule\<close>

text \<open>
  The derivative of one node with respect to another as the chain rule defines it, from
  the graph and the data alone: it refers neither to the traversal nor to the \<^verbatim>\<open>grad\<close>
  fields. \<open>local_derivs\<close> lists, for the operation a closure belongs to, each input with
  the partial derivative of the result with respect to it (the rule of the operation:
  \<open>1\<close> for \<^verbatim>\<open>linear\<close> and for both inputs of \<^verbatim>\<open>+\<close>, \<open>1 - t\<^sup>2\<close> for \<^verbatim>\<open>tanh\<close>, \<open>1\<close> or \<open>alpha\<close>
  for \<^verbatim>\<open>leaky_relu\<close>, \<open>1\<close> or \<open>0\<close> for \<^verbatim>\<open>relu\<close>, \<open>s (1 - s)\<close> for \<^verbatim>\<open>sigmoid\<close>, \<open>e\<close> for
  \<^verbatim>\<open>exp\<close>, the data of the other factor for \<^verbatim>\<open>*\<close>, \<open>p x\<^bsup>p - 1\<^esup>\<close> for \<^verbatim>\<open>**\<close>). Where the data
  is no number, or the power is one Python raises on, the closure raises and there is no
  derivative; the entry is \<open>0\<close> there.
\<close>

fun num_of :: "pyval \<Rightarrow> real" where
  "num_of (Num x) = x"
| "num_of NotNum = 0"

fun local_derivs :: "heap \<Rightarrow> closure \<Rightarrow> (ref \<times> real) list" where
  "local_derivs h Noop = []"
| "local_derivs h (LinearBackward self out) = [(self, 1)]"
| "local_derivs h (TanhBackward self out d) = [(self, 1 - d ^ 2)]"
| "local_derivs h (LeakyReluBackward self out alpha) =
     [(self, if num_of (data_of h self) > 0 then 1 else alpha)]"
| "local_derivs h (ReluBackward self out d) = [(self, if d > 0 then 1 else 0)]"
| "local_derivs h (SigmoidBackward self out d) = [(self, d * (1 - d))]"
| "local_derivs h (ExpBackward self out d) = [(self, d)]"
| "local_derivs h (AddBackward self other out) = [(self, 1), (other, 1)]"
| "local_derivs h (MulBackward self other out) =
     [(self, num_of (data_of h other)), (other, num_of (data_of h self))]"
| "local_derivs h (PowBackward self out p) =
     [(self, p * (case py_pow (data_of h self) (p - 1) of Inl e \<Rightarrow> 0 | Inr q \<Rightarrow> q))]"

text \<open>The derivative of the node \<open>p\<close> with respect to its direct input \<open>n\<close>: an input that
  occurs twice, as in \<^verbatim>\<open>x + x\<close> or \<^verbatim>\<open>x * x\<close>, counts twice; it is \<open>0\<close> when \<open>n\<close> is no input
  of \<open>p\<close>.\<close>

definition weight :: "heap \<Rightarrow> ref \<Rightarrow> ref \<Rightarrow> real" where
  "weight h p n =
     sum_list (map snd (filter (\<lambda>e. fst e = n) (local_derivs h (node_backward (h ! p)))))"

text \<open>
  The derivative of the node \<open>r\<close> with respect to the node \<open>n\<close>: \<open>1\<close> for \<open>r\<close> itself, plus
  the sum over the nodes \<open>p\<close> that use \<open>n\<close> of the derivative of \<open>r\<close> with respect to \<open>p\<close>
  times the derivative of \<open>p\<close> with respect to \<open>n\<close>; that is, the sum over all paths from
  \<open>r\<close> down to \<open>n\<close> of the product of the local derivatives along the path. The nodes that
  use \<open>n\<close> were allocated after \<open>n\<close>, and those that \<open>r\<close> depends on not after \<open>r\<close>, so the
  sum runs over the addresses from \<open>n + 1\<close> to \<open>r\<close>.
\<close>

function gradient :: "heap \<Rightarrow> ref \<Rightarrow> ref \<Rightarrow> real" where
  "gradient h r n =
     (if n = r then 1 else 0) + (\<Sum>p\<leftarrow>[Suc n..<Suc r]. gradient h r p * weight h p n)"
  by pat_completeness auto

termination gradient
  by (relation "measure (\<lambda>(h, r, n). Suc r - n)") auto

declare gradient.simps [simp del]

section \<open>Example programs\<close>

text \<open>
  \<^verbatim>\<open>x = Value(3); y = Value(2); z = (x + y) * x; w = Value(7)\<close>, at the addresses
  0 (\<^verbatim>\<open>x\<close>), 1 (\<^verbatim>\<open>y\<close>), 2 (\<^verbatim>\<open>x + y\<close>), 3 (\<^verbatim>\<open>z\<close>) and 4 (\<^verbatim>\<open>w\<close>): \<^verbatim>\<open>x\<close> is used
  twice, and \<^verbatim>\<open>w\<close> is not part of \<^verbatim>\<open>z\<close>.
\<close>

definition diamond_heap :: heap where
  "diamond_heap =
     snd (Value (snd (Value_mul (snd (Value_add (snd (Value (snd (Value [] (Num 3))) (Num 2)))
       0 (Ref 1))) 2 (Ref 0))) (Num 7))"

text \<open>\<^verbatim>\<open>x = Value(0); y = x ** 0.5\<close>, at the addresses 0 and 1.\<close>

definition sqrt_heap :: heap where
  "sqrt_heap = snd (Value_pow (snd (Value [] (Num 0))) 0 (Lit (Num (1 / 2))))"

text \<open>
  \<^verbatim>\<open>x = Value(3); y = Value(2); z = x - y; n = -x\<close> (the nodes of \<^verbatim>\<open>test_neg_sub\<close>), with
  \<^verbatim>\<open>x\<close> at address 0, \<^verbatim>\<open>y\<close> at 1, \<^verbatim>\<open>z\<close> at 4 and \<^verbatim>\<open>n\<close> at 6.
\<close>

definition sub_neg_heap :: heap where
  "sub_neg_heap =
     snd (Value_neg (snd (Value_sub (snd (Value (snd (Value [] (Num 3))) (Num 2))) 0 (Ref 1))) 0)"

text \<open>
  \<^verbatim>\<open>x = Value(3); y = x * 2; z1 = y + 1; z2 = y * 3\<close>, with \<^verbatim>\<open>x\<close> at address 0, \<^verbatim>\<open>y\<close> at 2,
  \<^verbatim>\<open>z1\<close> at 4 and \<^verbatim>\<open>z2\<close> at 6 (the promoted numbers at 1, 3 and 5): the two outputs share
  the intermediate node \<^verbatim>\<open>y\<close>.
\<close>

definition shared_heap :: heap where
  "shared_heap =
     snd (Value_mul (snd (Value_add (snd (Value_mul (snd (Value [] (Num 3))) 0 (Lit (Num 2))))
       2 (Lit (Num 1)))) 2 (Lit (Num 3)))"

text \<open>
  \<^verbatim>\<open>x = Value(3); y = x * 2; z1 = y + 1; w = x * 4; z2 = w * 5\<close>, with \<^verbatim>\<open>x\<close> at address 0,
  \<^verbatim>\<open>y\<close> at 2, \<^verbatim>\<open>z1\<close> at 4, \<^verbatim>\<open>w\<close> at 6 and \<^verbatim>\<open>z2\<close> at 8: the two outputs share the leaf
  \<^verbatim>\<open>x\<close> only, two steps below each of them.
\<close>

definition separate_heap :: heap where
  "separate_heap =
     snd (Value_mul (snd (Value_mul (snd (Value_add (snd (Value_mul (snd (Value [] (Num 3)))
       0 (Lit (Num 2)))) 2 (Lit (Num 1)))) 0 (Lit (Num 4)))) 6 (Lit (Num 5)))"

text \<open>\<^verbatim>\<open>x = Value(2); z = x * 3\<close>, with \<^verbatim>\<open>x\<close> at address 0 and \<^verbatim>\<open>z\<close> at 2.\<close>

definition mul3_heap :: heap where
  "mul3_heap = snd (Value_mul (snd (Value [] (Num 2))) 0 (Lit (Num 3)))"

text \<open>\<^verbatim>\<open>a = Value(6); b = Value(0)\<close>, at the addresses 0 and 1.\<close>

definition div_zero_heap :: heap where
  "div_zero_heap = snd (Value (snd (Value [] (Num 6))) (Num 0))"

text \<open>\<^verbatim>\<open>a = Value(2000)\<close>, at address 0.\<close>

definition exp_overflow_heap :: heap where
  "exp_overflow_heap = snd (Value [] (Num 2000))"

text \<open>\<^verbatim>\<open>a = Value(3)\<close>, at address 0.\<close>

definition three_heap :: heap where
  "three_heap = snd (Value [] (Num 3))"

section \<open>Reflected operators\<close>

text \<open>
  \<^verbatim>\<open>r op a\<close> for a number \<^verbatim>\<open>r\<close> and a \<^verbatim>\<open>Value\<close> \<^verbatim>\<open>a\<close>. The number's own method does not
  know \<^verbatim>\<open>Value\<close> and returns \<^verbatim>\<open>NotImplemented\<close>, so Python calls the reflected method of
  \<^verbatim>\<open>a\<close>: \<^verbatim>\<open>a.__radd__(r)\<close>, \<^verbatim>\<open>a.__rsub__(r)\<close>, \<^verbatim>\<open>a.__rmul__(r)\<close>. The class defines no
  \<^verbatim>\<open>__rtruediv__\<close>, so \<^verbatim>\<open>r / a\<close> raises \<^verbatim>\<open>TypeError\<close>.
\<close>

datatype binop = Plus | Minus | Times | Divide

definition reflected :: "heap \<Rightarrow> binop \<Rightarrow> real \<Rightarrow> ref \<Rightarrow> ref result" where
  "reflected h op r a =
     (case op of
        Plus \<Rightarrow> Value_radd h a (Lit (Num r))
      | Minus \<Rightarrow> Value_rsub h a (Lit (Num r))
      | Times \<Rightarrow> Value_rmul h a (Lit (Num r))
      | Divide \<Rightarrow> (Inl TypeError, h))"

section \<open>Relations between heaps\<close>

text \<open>
  Two heaps that agree on everything but gradients, have the same gradients above \<open>x\<close>, and
  whose gradients at \<open>x\<close> differ by \<open>delta\<close> (the nodes below \<open>x\<close>, among them all that \<open>x\<close>
  distributes to, are free).
\<close>

definition shifted :: "ref \<Rightarrow> real \<Rightarrow> heap \<Rightarrow> heap \<Rightarrow> bool" where
  "shifted x delta h1 h2 =
     (map forget_grad h1 = map forget_grad h2 \<and>
      (\<forall>m < length h1. x < m \<longrightarrow> grad (h1 ! m) = grad (h2 ! m)) \<and>
      grad (h1 ! x) = grad (h2 ! x) + delta)"

text \<open>The second heap is the first followed by new nodes, all with gradient \<open>0\<close>.\<close>

definition zero_grad_extension :: "heap \<Rightarrow> heap \<Rightarrow> bool" where
  "zero_grad_extension h h' = (\<exists>new. h' = h @ new \<and> (\<forall>n \<in> set new. grad n = 0))"

section \<open>Properties of the traversal\<close>

lemma build_graph_unvisited:
  "v \<notin> fst st \<Longrightarrow>
   build_graph h v st =
     (fst (build_children h (children_of h v) (insert v (fst st), snd st)),
      snd (build_children h (children_of h v) (insert v (fst st), snd st)) @ [v])"
  by (cases st) (simp add: build_graph.simps split: prod.splits)

lemma build_graph_visited: "v \<in> fst st \<Longrightarrow> build_graph h v st = st"
  by (cases st) (simp add: build_graph.simps)

lemma build_mono:
  "fst st \<subseteq> fst (build_graph h v st)"
  "fst st \<subseteq> fst (build_children h cs st)"
proof (induction h v st and h cs st rule: build_graph_build_children.induct)
  case (1 h v visited nodes)
  then show ?case
    by (cases "v \<in> visited") (auto simp: build_graph_unvisited build_graph_visited)
next
  case (2 h st)
  then show ?case by simp
next
  case (3 h c cs st)
  then show ?case by auto
qed

lemma build_root_visited:
  "v \<in> fst (build_graph h v st)"
  "set cs \<subseteq> fst (build_children h cs st)"
proof (induction h v st and h cs st rule: build_graph_build_children.induct)
  case (1 h v visited nodes)
  show ?case
  proof (cases "v \<in> visited")
    case True then show ?thesis by (simp add: build_graph_visited)
  next
    case False
    then show ?thesis
      using build_mono(2)[of "(insert v visited, nodes)" h "children_of h v"]
      by (auto simp: build_graph_unvisited)
  qed
next
  case (2 h st)
  then show ?case by simp
next
  case (3 h c cs st)
  have "c \<in> fst (build_graph h c st)" using 3 by simp
  moreover have "fst (build_graph h c st) \<subseteq> fst (build_children h cs (build_graph h c st))"
    by (rule build_mono(2))
  ultimately show ?case using 3 by auto
qed

lemma build_new:
  "\<exists>new. snd (build_graph h v st) = snd st @ new \<and>
         set new = fst (build_graph h v st) - fst st \<and> distinct new"
  "\<exists>new. snd (build_children h cs st) = snd st @ new \<and>
         set new = fst (build_children h cs st) - fst st \<and> distinct new"
proof (induction h v st and h cs st rule: build_graph_build_children.induct)
  case (1 h v visited nodes)
  show ?case
  proof (cases "v \<in> visited")
    case True then show ?thesis by (simp add: build_graph_visited)
  next
    case False
    let ?r = "build_children h (children_of h v) (insert v visited, nodes)"
    from 1[OF False] obtain new where
      n: "snd ?r = nodes @ new" "set new = fst ?r - insert v visited" "distinct new"
      by auto
    have v: "v \<in> fst ?r"
      using build_mono(2)[of "(insert v visited, nodes)" h "children_of h v"] by auto
    have "snd (build_graph h v (visited, nodes)) = nodes @ (new @ [v])"
      using False n by (simp add: build_graph_unvisited)
    moreover have "set (new @ [v]) = fst (build_graph h v (visited, nodes)) - visited"
      using False n v by (auto simp: build_graph_unvisited)
    moreover have "distinct (new @ [v])" using n by auto
    ultimately show ?thesis by (metis fst_conv snd_conv)
  qed
next
  case (2 h st)
  then show ?case by simp
next
  case (3 h c cs st)
  let ?s1 = "build_graph h c st"
  let ?s2 = "build_children h cs ?s1"
  from 3(1) obtain n1 where
    n1: "snd ?s1 = snd st @ n1" "set n1 = fst ?s1 - fst st" "distinct n1" by auto
  from 3(2) obtain n2 where
    n2: "snd ?s2 = snd ?s1 @ n2" "set n2 = fst ?s2 - fst ?s1" "distinct n2" by auto
  have m1: "fst st \<subseteq> fst ?s1" by (rule build_mono(1))
  have m2: "fst ?s1 \<subseteq> fst ?s2" by (rule build_mono(2))
  have "snd ?s2 = snd st @ (n1 @ n2)" using n1 n2 by simp
  moreover have "set (n1 @ n2) = fst ?s2 - fst st" using n1 n2 m1 m2 by auto
  moreover have "distinct (n1 @ n2)" using n1 n2 by auto
  ultimately show ?case by (metis build_children.simps(2))
qed

lemma build_closed:
  "\<forall>x \<in> fst (build_graph h v st) - fst st. set (children_of h x) \<subseteq> fst (build_graph h v st)"
  "\<forall>x \<in> fst (build_children h cs st) - fst st.
       set (children_of h x) \<subseteq> fst (build_children h cs st)"
proof (induction h v st and h cs st rule: build_graph_build_children.induct)
  case (1 h v visited nodes)
  show ?case
  proof (cases "v \<in> visited")
    case True then show ?thesis by (simp add: build_graph_visited)
  next
    case False
    let ?r = "build_children h (children_of h v) (insert v visited, nodes)"
    have "set (children_of h v) \<subseteq> fst ?r" by (rule build_root_visited(2))
    then show ?thesis using 1[OF False] False by (auto simp: build_graph_unvisited)
  qed
next
  case (2 h st)
  then show ?case by simp
next
  case (3 h c cs st)
  have m2: "fst (build_graph h c st) \<subseteq> fst (build_children h cs (build_graph h c st))"
    by (rule build_mono(2))
  show ?case using 3 m2 by (simp add: subset_iff) blast
qed

lemma build_reach:
  "\<forall>x \<in> fst (build_graph h v st) - fst st. (v, x) \<in> (edges h)\<^sup>*"
  "\<forall>x \<in> fst (build_children h cs st) - fst st. \<exists>c \<in> set cs. (c, x) \<in> (edges h)\<^sup>*"
proof (induction h v st and h cs st rule: build_graph_build_children.induct)
  case (1 h v visited nodes)
  show ?case
  proof (cases "v \<in> visited")
    case True then show ?thesis by (simp add: build_graph_visited)
  next
    case False
    let ?r = "build_children h (children_of h v) (insert v visited, nodes)"
    show ?thesis
    proof
      fix x assume x: "x \<in> fst (build_graph h v (visited, nodes)) - fst (visited, nodes)"
      show "(v, x) \<in> (edges h)\<^sup>*"
      proof (cases "x = v")
        case True then show ?thesis by simp
      next
        case xv: False
        then have "x \<in> fst ?r - fst (insert v visited, nodes)"
          using x False by (simp add: build_graph_unvisited)
        then obtain c where "c \<in> set (children_of h v)" "(c, x) \<in> (edges h)\<^sup>*"
          using 1[OF False] by blast
        moreover then have "(v, c) \<in> edges h" by (simp add: edges_def)
        ultimately show ?thesis by (meson converse_rtrancl_into_rtrancl)
      qed
    qed
  qed
next
  case (2 h st)
  then show ?case by simp
next
  case (3 h c cs st)
  show ?case
  proof
    fix x assume x: "x \<in> fst (build_children h (c # cs) st) - fst st"
    show "\<exists>c' \<in> set (c # cs). (c', x) \<in> (edges h)\<^sup>*"
    proof (cases "x \<in> fst (build_graph h c st)")
      case True
      then show ?thesis using 3(1) x by auto
    next
      case False
      then show ?thesis using 3(2) x by auto
    qed
  qed
qed

lemma closed_reachable:
  assumes "r \<in> S" and "\<forall>x \<in> S. set (children_of h x) \<subseteq> S" and "(r, n) \<in> (edges h)\<^sup>*"
  shows "n \<in> S"
  using assms(3,1,2) by (induction rule: rtrancl_induct) (auto simp: edges_def)

lemma build_graph_top:
  "set (snd (build_graph h r ({}, []))) = reachable h r"
  "distinct (snd (build_graph h r ({}, [])))"
  "fst (build_graph h r ({}, [])) = reachable h r"
proof -
  let ?s = "build_graph h r ({}, [])"
  from build_new(1)[of h r "({}, [])"] have d: "distinct (snd ?s)" and e: "set (snd ?s) = fst ?s"
    by auto
  show "distinct (snd ?s)" by (rule d)
  have "fst ?s \<subseteq> reachable h r"
    using build_reach(1)[of h r "({}, [])"] by (auto simp: reachable_def)
  moreover have "reachable h r \<subseteq> fst ?s"
    using closed_reachable[of r "fst ?s" h] build_root_visited(1)[of r h "({}, [])"]
      build_closed(1)[of h r "({}, [])"]
    by (auto simp: reachable_def)
  ultimately show "fst ?s = reachable h r" by blast
  then show "set (snd ?s) = reachable h r" using e by simp
qed

lemma build_graph_last:
  "snd (build_graph h r ({}, [])) \<noteq> [] \<and> last (snd (build_graph h r ({}, []))) = r"
  by (simp add: build_graph_unvisited)

lemma children_first_append:
  "children_first h S (xs @ ys) =
     (children_first h S xs \<and> children_first h (S \<union> set xs) ys)"
  by (induction xs arbitrary: S) auto

lemma wf_children_less: "wf_heap h \<Longrightarrow> c \<in> set (children_of h v) \<Longrightarrow> c < v"
  by (auto simp: wf_heap_def wf_node_def children_of_def split: if_splits)

lemma build_gray:
  assumes "set (snd st) \<subseteq> fst st"
  shows "fst (build_graph h v st) - set (snd (build_graph h v st)) = fst st - set (snd st)"
    and "fst (build_children h cs st) - set (snd (build_children h cs st)) = fst st - set (snd st)"
    and "set (snd (build_graph h v st)) \<subseteq> fst (build_graph h v st)"
    and "set (snd (build_children h cs st)) \<subseteq> fst (build_children h cs st)"
proof -
  obtain n1 where n1: "snd (build_graph h v st) = snd st @ n1"
    "set n1 = fst (build_graph h v st) - fst st"
    using build_new(1)[of h v st] by blast
  obtain n2 where n2: "snd (build_children h cs st) = snd st @ n2"
    "set n2 = fst (build_children h cs st) - fst st"
    using build_new(2)[of h cs st] by blast
  have m1: "fst st \<subseteq> fst (build_graph h v st)" by (rule build_mono(1))
  have m2: "fst st \<subseteq> fst (build_children h cs st)" by (rule build_mono(2))
  show "fst (build_graph h v st) - set (snd (build_graph h v st)) = fst st - set (snd st)"
    using n1 m1 assms by auto
  show "fst (build_children h cs st) - set (snd (build_children h cs st)) = fst st - set (snd st)"
    using n2 m2 assms by auto
  show "set (snd (build_graph h v st)) \<subseteq> fst (build_graph h v st)"
    using n1 m1 assms by auto
  show "set (snd (build_children h cs st)) \<subseteq> fst (build_children h cs st)"
    using n2 m2 assms by auto
qed

lemma build_children_first:
  "wf_heap h \<Longrightarrow> set (snd st) \<subseteq> fst st \<Longrightarrow> \<forall>g \<in> fst st - set (snd st). v < g \<Longrightarrow>
     snd (build_graph h v st) = snd st @ new \<Longrightarrow> children_first h (set (snd st)) new"
  "wf_heap h \<Longrightarrow> set (snd st) \<subseteq> fst st \<Longrightarrow> \<forall>g \<in> fst st - set (snd st). \<forall>c \<in> set cs. c < g \<Longrightarrow>
     snd (build_children h cs st) = snd st @ new \<Longrightarrow> children_first h (set (snd st)) new"
proof (induction h v st and h cs st arbitrary: new and new rule: build_graph_build_children.induct)
  case (1 h v visited nodes)
  show ?case
  proof (cases "v \<in> visited")
    case True
    then show ?thesis using 1(5) by (simp add: build_graph_visited)
  next
    case False
    let ?st = "(insert v visited, nodes)"
    let ?r = "build_children h (children_of h v) ?st"
    obtain n where n: "snd ?r = nodes @ n" using build_new(2)[of h "children_of h v" ?st] by auto
    have sub: "set (snd ?st) \<subseteq> fst ?st" using 1(3) by auto
    have pre: "\<forall>g \<in> fst ?st - set (snd ?st). \<forall>c \<in> set (children_of h v). c < g"
      using 1(4) wf_children_less[OF 1(2)] by fastforce
    have cf: "children_first h (set nodes) n"
      using 1(1)[OF False 1(2) sub pre] n by simp
    have gray: "fst ?r - set (snd ?r) = insert v visited - set nodes"
      using build_gray(2)[OF sub, of h "children_of h v"] by simp
    have "set (children_of h v) \<subseteq> set (snd ?r)"
    proof
      fix c assume c: "c \<in> set (children_of h v)"
      then have "c \<in> fst ?r" using build_root_visited(2)[of "children_of h v" h ?st] by auto
      moreover have cv: "c < v" using wf_children_less[OF 1(2) c] .
      have "c \<notin> visited - set nodes"
      proof
        assume "c \<in> visited - set nodes"
        then have "v < c" using 1(4) by simp
        with cv show False by simp
      qed
      then have "c \<notin> insert v visited - set nodes" using cv by auto
      ultimately show "c \<in> set (snd ?r)" using gray by blast
    qed
    then have "set (children_of h v) \<subseteq> set nodes \<union> set n" using n by simp
    moreover have "new = n @ [v]" using 1(5) False n by (simp add: build_graph_unvisited)
    ultimately show ?thesis using cf by (simp add: children_first_append)
  qed
next
  case (2 h st)
  then show ?case by simp
next
  case (3 h c cs st)
  let ?s1 = "build_graph h c st"
  obtain n1 where n1: "snd ?s1 = snd st @ n1" using build_new(1)[of h c st] by blast
  obtain n2 where n2: "snd (build_children h cs ?s1) = snd ?s1 @ n2"
    using build_new(2)[of h cs ?s1] by blast
  have cf1: "children_first h (set (snd st)) n1"
    using 3(1)[OF 3(3) 3(4) _ n1] 3(5) by simp
  have sub1: "set (snd ?s1) \<subseteq> fst ?s1" by (rule build_gray(3)[OF 3(4)])
  have gray1: "fst ?s1 - set (snd ?s1) = fst st - set (snd st)" by (rule build_gray(1)[OF 3(4)])
  have cf2: "children_first h (set (snd ?s1)) n2"
    using 3(2)[OF 3(3) sub1 _ n2] 3(5) gray1 by simp
  have "new = n1 @ n2" using 3(6) n1 n2 by simp
  then show ?case using cf1 cf2 n1 by (simp add: children_first_append)
qed

lemma children_first_top:
  assumes "wf_heap h"
  shows "children_first h {} (snd (build_graph h r ({}, [])))"
  using build_children_first(1)[OF assms, of "({}, [])" r "snd (build_graph h r ({}, []))"]
    build_new(1)[of h r "({}, [])"]
  by auto

lemma add_grad_forget [simp]: "map forget_grad (add_grad h r d) = map forget_grad h"
  by (cases "r < length h")
     (auto simp: add_grad_def forget_grad_def list_eq_iff_nth_eq nth_list_update)

lemma set_grad_forget [simp]: "map forget_grad (set_grad h r d) = map forget_grad h"
  by (cases "r < length h")
     (auto simp: set_grad_def forget_grad_def list_eq_iff_nth_eq nth_list_update)

lemma add_grad_other [simp]: "m \<noteq> r \<Longrightarrow> add_grad h r d ! m = h ! m"
  by (simp add: add_grad_def)

lemma set_grad_other [simp]: "m \<noteq> r \<Longrightarrow> set_grad h r d ! m = h ! m"
  by (simp add: set_grad_def)

lemma call_backward_forget: "map forget_grad (snd (call_backward h c)) = map forget_grad h"
  by (cases c) (auto simp: Let_def split: sum.splits)

lemma call_backward_frame: "m \<notin> targets c \<Longrightarrow> snd (call_backward h c) ! m = h ! m"
  by (cases c) (auto simp: Let_def split: sum.splits)

lemma forget_nth:
  "map forget_grad h' = map forget_grad h \<Longrightarrow> n < length h \<Longrightarrow>
     forget_grad (h' ! n) = forget_grad (h ! n)"
  by (metis length_map nth_map)

lemma forget_fields:
  "forget_grad a = forget_grad b \<Longrightarrow>
     data a = data b \<and> label a = label b \<and> children a = children b \<and>
     node_backward a = node_backward b \<and> operation a = operation b"
  by (cases a, cases b) (simp add: forget_grad_def)

lemma backward_loop_forget:
  "map forget_grad (fst (snd (backward_loop h ns called))) = map forget_grad h"
proof (induction ns arbitrary: h called)
  case Nil
  then show ?case by simp
next
  case (Cons n ns)
  obtain r h' where c: "call_backward h (node_backward (h ! n)) = (r, h')" by force
  have f: "map forget_grad h' = map forget_grad h"
    using call_backward_forget[of h "node_backward (h ! n)"] c by simp
  show ?case using c f Cons.IH[of h'] by (cases r) auto
qed

lemma backward_loop_frame:
  "set ns \<subseteq> {..<length h} \<Longrightarrow> \<forall>n \<in> set ns. m \<notin> targets (node_backward (h ! n)) \<Longrightarrow>
     fst (snd (backward_loop h ns called)) ! m = h ! m"
proof (induction ns arbitrary: h called)
  case Nil
  then show ?case by simp
next
  case (Cons n ns)
  obtain r h' where c: "call_backward h (node_backward (h ! n)) = (r, h')" by force
  have f: "map forget_grad h' = map forget_grad h"
    using call_backward_forget[of h "node_backward (h ! n)"] c by simp
  have len: "length h' = length h" using f by (metis length_map)
  have m: "h' ! m = h ! m"
    using call_backward_frame[of m "node_backward (h ! n)" h] c Cons.prems by simp
  have clo: "\<forall>k \<in> set ns. node_backward (h' ! k) = node_backward (h ! k)"
    using forget_fields[OF forget_nth[OF f]] Cons.prems(1) by auto
  show ?case
  proof (cases r)
    case (Inl e)
    then show ?thesis using c m by simp
  next
    case (Inr u)
    have "fst (snd (backward_loop h' ns (called @ [n]))) ! m = h' ! m"
      using Cons.IH[of h' "called @ [n]"] Cons.prems clo len by auto
    then show ?thesis using c m Inr by simp
  qed
qed

lemma closure_ok_targets: "closure_ok n cs c \<Longrightarrow> targets c \<subseteq> set cs"
  by (cases c) auto

lemma wf_targets:
  "wf_heap h \<Longrightarrow> n < length h \<Longrightarrow> targets (node_backward (h ! n)) \<subseteq> set (children_of h n)"
  using closure_ok_targets[of n "children (h ! n)" "node_backward (h ! n)"]
  by (auto simp: wf_heap_def wf_node_def children_of_def)

lemma reachable_le:
  assumes "wf_heap h" and "n \<in> reachable h r"
  shows "n \<le> r"
proof -
  have "(r, n) \<in> (edges h)\<^sup>*" using assms(2) by (simp add: reachable_def)
  then show ?thesis
  proof (induction rule: rtrancl_induct)
    case base
    then show ?case by simp
  next
    case (step y z)
    then have "z < y" using wf_children_less[OF assms(1), of z y] by (simp add: edges_def)
    with step show ?case by simp
  qed
qed

lemma reachable_child:
  "n \<in> reachable h r \<Longrightarrow> c \<in> set (children_of h n) \<Longrightarrow> c \<in> reachable h r"
  by (auto simp: reachable_def edges_def intro: rtrancl_into_rtrancl)

lemma backward_unfold:
  "backward h r = backward_loop (set_grad h r 1) (backward_order h r) []"
  by (simp add: backward_def backward_order_def split: prod.splits)

lemma backward_order_set: "set (backward_order h r) = reachable h r"
  by (simp add: backward_order_def build_graph_top(1))

lemma wf_heap_forget:
  "map forget_grad h' = map forget_grad h \<Longrightarrow> wf_heap h \<Longrightarrow> wf_heap h'"
proof -
  assume f: "map forget_grad h' = map forget_grad h" and wf: "wf_heap h"
  have len: "length h' = length h" using f by (metis length_map)
  show "wf_heap h'"
    unfolding wf_heap_def
  proof (intro allI impI)
    fix n assume "n < length h'"
    then have n: "n < length h" using len by simp
    have "children (h' ! n) = children (h ! n)" "node_backward (h' ! n) = node_backward (h ! n)"
      using forget_fields[OF forget_nth[OF f n]] by simp_all
    then show "wf_node n (h' ! n)" using wf n by (simp add: wf_heap_def wf_node_def)
  qed
qed

section \<open>Evaluating the example programs\<close>

lemmas engine_defs =
  Value_def Value_init_def Value_add_def Value_mul_def Value_pow_def Value_neg_def
  Value_sub_def Value_rsub_def Value_truediv_def Value_radd_def Value_rmul_def
  linear_value_def tanh_value_def leaky_relu_def relu_def sigmoid_def exp_value_def
  set_backward_def data_of_def

lemma diamond_heap_nodes:
  "diamond_heap =
    [\<lparr>data = Num 3, grad = 0, label = [], children = [], node_backward = Noop,
        operation = OpLeaf\<rparr>,
     \<lparr>data = Num 2, grad = 0, label = [], children = [], node_backward = Noop,
        operation = OpLeaf\<rparr>,
     \<lparr>data = Num 5, grad = 0, label = [], children = [0, 1],
        node_backward = AddBackward 0 1 2, operation = OpAdd\<rparr>,
     \<lparr>data = Num 15, grad = 0, label = [], children = [2, 0],
        node_backward = MulBackward 2 0 3, operation = OpMul\<rparr>,
     \<lparr>data = Num 7, grad = 0, label = [], children = [], node_backward = Noop,
        operation = OpLeaf\<rparr>]"
  by (simp add: diamond_heap_def engine_defs)

lemma diamond_wf: "wf_heap diamond_heap"
  by (simp add: diamond_heap_nodes wf_heap_def wf_node_def All_less_Suc)

lemma diamond_order: "backward_order diamond_heap 3 = [3, 2, 1, 0]"
  by (simp add: diamond_heap_nodes backward_order_def build_graph.simps children_of_def)

section \<open>Frame of backward propagation\<close>

text \<open>
  Claim C9. For every root, \<^verbatim>\<open>backward\<close> leaves every field of every node that is not
  reachable from the root through \<^verbatim>\<open>_children\<close> unchanged, and leaves \<^verbatim>\<open>data\<close>,
  \<^verbatim>\<open>_children\<close>, the operation tag (and the label and the stored closure) of every node
  unchanged: only the \<^verbatim>\<open>grad\<close> fields of reachable nodes are mutated. The heap is any
  heap the constructors can build (\<open>wf_heap\<close>), and the statement holds whether or not a
  closure raises during the pass.
\<close>

theorem backward_frame:
  assumes wf: "wf_heap h" and r: "r < length h"
  shows "length (heap_of (backward h r)) = length h \<and>
         (\<forall>m < length h.
            data (heap_of (backward h r) ! m) = data (h ! m) \<and>
            children (heap_of (backward h r) ! m) = children (h ! m) \<and>
            operation (heap_of (backward h r) ! m) = operation (h ! m) \<and>
            label (heap_of (backward h r) ! m) = label (h ! m) \<and>
            node_backward (heap_of (backward h r) ! m) = node_backward (h ! m) \<and>
            (m \<notin> reachable h r \<longrightarrow> heap_of (backward h r) ! m = h ! m))"
proof -
  let ?h1 = "set_grad h r 1"
  let ?h' = "heap_of (backward h r)"
  have f: "map forget_grad ?h' = map forget_grad h"
    using backward_loop_forget[of ?h1 "backward_order h r" "[]"]
    by (simp add: backward_unfold heap_of_def)
  have len: "length ?h' = length h" using f by (metis length_map)
  have fields: "\<And>m. m < length h \<Longrightarrow> forget_grad (?h' ! m) = forget_grad (h ! m)"
    using forget_nth[OF f] .
  have unr: "?h' ! m = h ! m" if m: "m \<notin> reachable h r" for m
  proof -
    have mr: "m \<noteq> r" using m by (auto simp: reachable_def)
    have sub: "set (backward_order h r) \<subseteq> {..<length ?h1}"
      using reachable_le[OF wf, of _ r] r by (fastforce simp: backward_order_set set_grad_def)
    have "\<forall>n \<in> set (backward_order h r). m \<notin> targets (node_backward (?h1 ! n))"
    proof
      fix n assume n: "n \<in> set (backward_order h r)"
      then have nr: "n \<in> reachable h r" by (simp add: backward_order_set)
      then have nl: "n < length h" using reachable_le[OF wf nr] r by simp
      have "node_backward (?h1 ! n) = node_backward (h ! n)"
        using r by (simp add: set_grad_def nth_list_update)
      moreover have "targets (node_backward (h ! n)) \<subseteq> reachable h r"
        using wf_targets[OF wf nl] reachable_child[OF nr] by blast
      ultimately show "m \<notin> targets (node_backward (?h1 ! n))" using m by auto
    qed
    then have "?h' ! m = ?h1 ! m"
      using backward_loop_frame[OF sub, of m "[]"] by (simp add: backward_unfold heap_of_def)
    then show ?thesis using mr by simp
  qed
  show ?thesis using len forget_fields[OF fields] unr by blast
qed

theorem backward_frame_witness:
  "wf_heap diamond_heap \<and> 3 < length diamond_heap \<and> 4 < length diamond_heap \<and>
   4 \<notin> reachable diamond_heap 3 \<and>
   heap_of (backward diamond_heap 3) ! 4 = diamond_heap ! 4 \<and>
   data (heap_of (backward diamond_heap 3) ! 0) = data (diamond_heap ! 0) \<and>
   children (heap_of (backward diamond_heap 3) ! 3) = children (diamond_heap ! 3)"
proof -
  have wf: "wf_heap diamond_heap" by (rule diamond_wf)
  have l: "3 < length diamond_heap" "4 < length diamond_heap" "0 < length diamond_heap"
    by (simp_all add: diamond_heap_nodes)
  have "reachable diamond_heap 3 = {3, 2, 1, 0}"
    using backward_order_set[of diamond_heap 3] by (simp add: diamond_order)
  then have nr: "4 \<notin> reachable diamond_heap 3" by simp
  show ?thesis using backward_frame[OF wf l(1)] wf l nr by blast
qed

section \<open>Allocation and the head of the propagation order\<close>

lemma set_backward_snoc [simp]:
  "set_backward (h @ [nd]) (length h) c = h @ [nd\<lparr>node_backward := c\<rparr>]"
  by (simp add: set_backward_def)

lemma wf_heap_snoc:
  "wf_heap h \<Longrightarrow> wf_node (length h) nd \<Longrightarrow> wf_heap (h @ [nd])"
  by (auto simp: wf_heap_def nth_append less_Suc_eq)

lemma children_of_snoc_old [simp]: "n < length h \<Longrightarrow> children_of (h @ [nd]) n = children_of h n"
  by (simp add: children_of_def nth_append)

lemma children_of_snoc_new [simp]: "children_of (h @ [nd]) (length h) = children nd"
  by (simp add: children_of_def)

lemma reachable_step:
  assumes "n \<in> reachable h r" and "n \<noteq> r"
  shows "\<exists>c \<in> set (children_of h r). n \<in> reachable h c"
proof -
  have "(r, n) \<in> (edges h)\<^sup>*" using assms(1) by (simp add: reachable_def)
  then obtain c where "(r, c) \<in> edges h" "(c, n) \<in> (edges h)\<^sup>*"
    using assms(2) by (auto elim: converse_rtranclE)
  then show ?thesis by (auto simp: reachable_def edges_def)
qed

lemma backward_order_head:
  "\<exists>rest. backward_order h r = r # rest \<and> set rest = reachable h r - {r} \<and> distinct rest"
proof -
  let ?ns = "snd (build_graph h r ({}, []))"
  have ne: "?ns \<noteq> []" and l: "last ?ns = r" using build_graph_last[of h r] by auto
  have d: "distinct ?ns" by (rule build_graph_top(2))
  have s: "set ?ns = reachable h r" by (rule build_graph_top(1))
  have eq: "?ns = butlast ?ns @ [r]" using ne l by (metis append_butlast_last_id)
  have "backward_order h r = r # rev (butlast ?ns)"
    unfolding backward_order_def by (subst eq) simp
  moreover have "distinct (rev (butlast ?ns))" using d by (simp add: distinct_butlast)
  moreover have "set (rev (butlast ?ns)) = reachable h r - {r}"
  proof -
    have "r \<notin> set (butlast ?ns)" using d eq by (metis distinct_append disjoint_iff list.set_intros(1) distinct.simps(2) append_Nil distinct_append not_distinct_conv_prefix)
    moreover have "set ?ns = set (butlast ?ns) \<union> {r}" by (subst eq) simp
    ultimately show ?thesis using s by auto
  qed
  ultimately show ?thesis by blast
qed

lemma backward_loop_below:
  assumes wf: "wf_heap h" and x: "x < length h" and ns: "\<forall>n \<in> set ns. n \<le> x"
  shows "fst (snd (backward_loop h ns called)) ! x = h ! x"
proof (rule backward_loop_frame)
  show "set ns \<subseteq> {..<length h}" using ns x by auto
  show "\<forall>n \<in> set ns. x \<notin> targets (node_backward (h ! n))"
  proof
    fix n assume n: "n \<in> set ns"
    then have nl: "n < length h" "n \<le> x" using ns x by auto
    have "\<forall>c \<in> targets (node_backward (h ! n)). c < n"
      using wf_targets[OF wf nl(1)] wf_children_less[OF wf] by blast
    then show "x \<notin> targets (node_backward (h ! n))" using nl(2) by auto
  qed
qed

lemma relu_eval:
  "data_of h a = Num v \<Longrightarrow>
   relu h a = (Inr (length h),
     h @ [\<lparr>data = Num (max 0 v), grad = 0, label = [], children = [a],
            node_backward = ReluBackward a (length h) (max 0 v), operation = OpRelu\<rparr>])"
  by (simp add: relu_def Value_init_def max_def)

section \<open>The rectifier\<close>

text \<open>
  Claim C8. For every real \<open>v\<close>, \<^verbatim>\<open>relu\<close> of a node with data \<open>v\<close> returns a new node with
  data \<open>max 0 v\<close>, and \<^verbatim>\<open>backward\<close> from that node adds to the gradient of its input
  \<open>1\<close> if \<open>0 < v\<close> and \<open>0\<close> otherwise, so \<open>0\<close> at \<open>v = 0\<close>: the closure tests the output
  data \<open>max 0 v\<close>, which is positive exactly when \<open>v\<close> is. The input is any node of a
  heap the constructors can build, a fresh leaf \<^verbatim>\<open>Value(v)\<close> in particular.
\<close>

theorem relu_backward:
  assumes wf: "wf_heap h" and a: "a < length h" and v: "data_of h a = Num v"
  shows "fst (relu h a) = Inr (length h) \<and>
         data_of (snd (relu h a)) (length h) = Num (max 0 v) \<and>
         grad_of (heap_of (backward (snd (relu h a)) (length h))) a =
           grad_of h a + (if 0 < v then 1 else 0)"
proof -
  define d where "d = max 0 v"
  define nd where "nd = \<lparr>data = Num d, grad = 0, label = [], children = [a],
            node_backward = ReluBackward a (length h) d, operation = OpRelu\<rparr>"
  let ?h1 = "h @ [nd]"
  let ?out = "length h"
  have ev: "relu h a = (Inr ?out, ?h1)" using relu_eval[OF v] by (simp add: nd_def d_def)
  have wf1: "wf_heap ?h1"
    using wf a by (intro wf_heap_snoc) (simp_all add: wf_node_def nd_def)
  obtain rest where rest: "backward_order ?h1 ?out = ?out # rest"
    "set rest = reachable ?h1 ?out - {?out}"
    using backward_order_head[of ?h1 ?out] by blast
  have le: "\<forall>n \<in> set rest. n \<le> a"
  proof
    fix n assume "n \<in> set rest"
    then have "n \<in> reachable ?h1 ?out" "n \<noteq> ?out" using rest(2) by auto
    then have "n \<in> reachable ?h1 a" using reachable_step[of n ?h1 ?out] by (simp add: nd_def)
    then show "n \<le> a" by (rule reachable_le[OF wf1])
  qed
  let ?h2 = "add_grad (set_grad ?h1 ?out 1) a (1 * (if d > 0 then 1 else 0))"
  have step: "backward ?h1 ?out = backward_loop ?h2 rest [?out]"
    unfolding backward_unfold rest(1)
    by (simp add: set_grad_def grad_of_def nd_def)
  have wf2: "wf_heap ?h2"
    by (rule wf_heap_forget[OF _ wf1]) simp
  have "heap_of (backward ?h1 ?out) ! a = ?h2 ! a"
    unfolding step heap_of_def
    by (rule backward_loop_below[OF wf2 _ le]) (use a in \<open>simp add: add_grad_def set_grad_def\<close>)
  then have "grad_of (heap_of (backward ?h1 ?out)) a = grad_of h a + (if 0 < v then 1 else 0)"
    using a by (simp add: grad_of_def add_grad_def set_grad_def nth_append d_def)
  then show ?thesis using ev by (simp add: data_of_def nd_def d_def)
qed

theorem relu_backward_witness:
  "wf_heap (snd (Value [] (Num 0))) \<and> 0 < length (snd (Value [] (Num 0))) \<and>
   data_of (snd (Value [] (Num 0))) 0 = Num 0 \<and>
   fst (relu (snd (Value [] (Num 0))) 0) = Inr 1 \<and>
   data_of (snd (relu (snd (Value [] (Num 0))) 0)) 1 = Num 0 \<and>
   grad_of (heap_of (backward (snd (relu (snd (Value [] (Num 0))) 0)) 1)) 0 = 0"
proof -
  let ?h = "snd (Value [] (Num 0))"
  have wf: "wf_heap ?h" by (simp add: engine_defs wf_heap_def wf_node_def)
  have a: "0 < length ?h" by (simp add: engine_defs)
  have v: "data_of ?h 0 = Num 0" by (simp add: engine_defs)
  have g: "grad_of ?h 0 = 0" "length ?h = 1" by (simp_all add: engine_defs grad_of_def)
  show ?thesis using relu_backward[OF wf a v] wf a v g by simp
qed

section \<open>The chain rule through power and sigmoid\<close>

lemma children_first_closed:
  "children_first h S xs \<Longrightarrow> y \<in> set xs \<Longrightarrow> set (children_of h y) \<subseteq> S \<union> set xs"
proof (induction xs arbitrary: S)
  case Nil
  then show ?case by simp
next
  case (Cons x xs)
  show ?case
  proof (cases "y = x")
    case True
    then show ?thesis using Cons.prems by auto
  next
    case False
    then have "set (children_of h y) \<subseteq> insert x S \<union> set xs"
      using Cons.IH[of "insert x S"] Cons.prems by simp
    then show ?thesis by auto
  qed
qed

lemma post_order_descendants:
  assumes "children_first h {} (a @ x # b)"
  shows "reachable h x \<subseteq> set a \<union> {x}"
proof -
  have cf: "children_first h {} (a @ [x])"
    using assms children_first_append[of h "{}" "a @ [x]" b] by simp
  have closed: "\<forall>y \<in> set (a @ [x]). set (children_of h y) \<subseteq> set (a @ [x])"
    using children_first_closed[OF cf] by blast
  have "n \<in> set (a @ [x])" if "n \<in> reachable h x" for n
    using closed_reachable[of x "set (a @ [x])" h n] closed that by (simp add: reachable_def)
  then show ?thesis by auto
qed

lemma reachable_self [simp]: "r \<in> reachable h r"
  by (simp add: reachable_def)

lemma unary_order:
  assumes wf: "wf_heap h" and c: "children_of h r = [c]"
  shows "\<exists>rest. backward_order h r = r # c # rest \<and> set rest = reachable h c - {c}"
proof -
  let ?ns = "snd (build_graph h r ({}, []))"
  obtain rest0 where r0: "backward_order h r = r # rest0" "set rest0 = reachable h r - {r}"
    "distinct rest0" using backward_order_head[of h r] by blast
  have ns: "?ns = rev rest0 @ [r]" using r0(1) by (simp add: backward_order_def rev_swap)
  have cr: "c < r" using wf_children_less[OF wf, of c r] c by simp
  have reach: "reachable h r = insert r (reachable h c)"
  proof
    show "reachable h r \<subseteq> insert r (reachable h c)"
      using reachable_step[of _ h r] c by auto
    show "insert r (reachable h c) \<subseteq> reachable h r"
      using reachable_child[of r h r c] c
      by (auto simp: reachable_def edges_def intro: converse_rtrancl_into_rtrancl)
  qed
  have "c \<in> set (rev rest0)" using r0(2) reach cr by auto
  then obtain a b where ab: "rev rest0 = a @ c # b" by (meson split_list)
  have cf: "children_first h {} (a @ c # (b @ [r]))"
    using children_first_top[OF wf, of r] ns ab by simp
  have desc: "reachable h c \<subseteq> set a \<union> {c}" by (rule post_order_descendants[OF cf])
  have dis: "distinct (a @ c # b)" using r0(3) ab by (metis distinct_rev)
  have "set b \<subseteq> set (rev rest0)" unfolding ab by auto
  then have "set b \<subseteq> reachable h c" using r0(2) reach by auto
  then have "set b \<subseteq> set a \<union> {c}" using desc by blast
  then have "b = []" using dis by (cases b) auto
  then have rest0: "rest0 = c # rev a" using ab by (simp add: rev_swap)
  have "set (rev a) = reachable h c - {c}"
  proof -
    have "c \<notin> set a" "r \<notin> set a" using dis r0(2) rest0 by auto
    moreover have "insert c (set a) = reachable h r - {r}" using r0(2) rest0 by auto
    moreover have "r \<notin> reachable h c" using reachable_le[OF wf, of r c] cr by auto
    ultimately show ?thesis using reach by auto
  qed
  then show ?thesis using r0(1) rest0 by blast
qed

lemma pow_eval_2:
  "data_of h x = Num v \<Longrightarrow>
   Value_pow h x (Lit (Num 2)) = (Inr (length h),
     h @ [\<lparr>data = Num (v ^ 2), grad = 0, label = [], children = [x],
            node_backward = PowBackward x (length h) 2, operation = OpPow 2\<rparr>])"
  by (simp add: Value_pow_def Value_init_def float_pow_def)

lemma float_max_ge_one: "1 \<le> float_max"
  by (simp add: float_max_def)

lemma math_exp_nonpos: "x \<le> 0 \<Longrightarrow> math_exp (Num x) = Inr (exp x)"
  using float_max_ge_one by (simp add: math_exp_def) (smt (verit) exp_le_one_iff)

lemma sigmoid_eval:
  "data_of h y = Num u \<Longrightarrow> 0 \<le> u \<Longrightarrow>
   sigmoid h y = (Inr (length h),
     h @ [\<lparr>data = Num (1 / (1 + exp (- u))), grad = 0, label = [], children = [y],
            node_backward = SigmoidBackward y (length h) (1 / (1 + exp (- u))),
            operation = OpSigmoid\<rparr>])"
  by (simp add: sigmoid_def Value_init_def Let_def math_exp_nonpos)

text \<open>
  Claim C2. For every real \<open>v\<close>, building \<^verbatim>\<open>z = (x ** 2).sigmoid()\<close> from a node \<^verbatim>\<open>x\<close>
  with data \<open>v\<close> and calling \<^verbatim>\<open>z.backward()\<close> adds \<open>2 * v * s * (1 - s)\<close> to \<^verbatim>\<open>x.grad\<close>,
  where \<open>s = 1 / (1 + exp (- v\<^sup>2))\<close> is the data of \<^verbatim>\<open>z\<close>; from a gradient of \<open>0\<close> the
  result is the closed form itself. \<^verbatim>\<open>x\<close> is any node of a heap the constructors can
  build, a fresh leaf in particular; numbers are real numbers, so the equality is exact.
\<close>

theorem chain_rule_sigmoid_square:
  assumes wf: "wf_heap h" and x: "x < length h" and v: "data_of h x = Num v"
    and pw: "Value_pow h x (Lit (Num 2)) = (ry, h1)"
    and sg: "sigmoid h1 (length h) = (rz, h2)"
    and s: "s = 1 / (1 + exp (- (v ^ 2)))"
  shows "ry = Inr (length h) \<and> rz = Inr (Suc (length h)) \<and>
         data_of h2 (Suc (length h)) = Num s \<and>
         grad_of (heap_of (backward h2 (Suc (length h)))) x =
           grad_of h x + 2 * v * s * (1 - s)"
proof -
  define ynode where "ynode = \<lparr>data = Num (v ^ 2), grad = 0, label = [], children = [x],
            node_backward = PowBackward x (length h) 2, operation = OpPow 2\<rparr>"
  define znode where "znode = \<lparr>data = Num s, grad = 0, label = [], children = [length h],
            node_backward = SigmoidBackward (length h) (Suc (length h)) s,
            operation = OpSigmoid\<rparr>"
  let ?y = "length h"
  let ?z = "Suc (length h)"
  have ry: "ry = Inr ?y" and h1: "h1 = h @ [ynode]"
    using pw pow_eval_2[OF v] by (simp_all add: ynode_def)
  have "data_of h1 ?y = Num (v ^ 2)" by (simp add: h1 data_of_def ynode_def)
  from sigmoid_eval[OF this] have rz: "rz = Inr ?z" and h2: "h2 = h @ [ynode, znode]"
    using sg by (simp_all add: h1 znode_def s)
  have wf1: "wf_heap (h @ [ynode])"
    using wf x by (intro wf_heap_snoc) (simp_all add: wf_node_def ynode_def)
  have wf2: "wf_heap h2"
    unfolding h2 using wf_heap_snoc[OF wf1, of znode]
    by (simp add: wf_node_def znode_def)
  have cz: "children_of h2 ?z = [?y]"
    by (simp add: h2 children_of_def znode_def nth_append)
  have cy: "children_of h2 ?y = [x]"
    by (simp add: h2 children_of_def ynode_def nth_append)
  obtain rest1 where r1: "backward_order h2 ?z = ?z # ?y # rest1"
    "set rest1 = reachable h2 ?y - {?y}"
    using unary_order[OF wf2 cz] by blast
  have le: "\<forall>n \<in> set rest1. n \<le> x"
  proof
    fix n assume "n \<in> set rest1"
    then have "n \<in> reachable h2 ?y" "n \<noteq> ?y" using r1(2) by auto
    then have "n \<in> reachable h2 x" using reachable_step[of n h2 ?y] cy by simp
    then show "n \<le> x" by (rule reachable_le[OF wf2])
  qed
  let ?ha = "set_grad h2 ?z 1"
  let ?hb = "add_grad ?ha ?y (1 * s * (1 - s))"
  let ?hc = "add_grad ?hb x (s * (1 - s) * 2 * v)"
  have step: "backward h2 ?z = backward_loop ?hc rest1 [?z, ?y]"
    unfolding backward_unfold r1(1) using x v[unfolded data_of_def]
    by (simp add: h2 set_grad_def add_grad_def grad_of_def data_of_def znode_def ynode_def
        nth_append float_pow_def)
  have wfc: "wf_heap ?hc"
    by (rule wf_heap_forget[OF _ wf2]) simp
  have lc: "x < length ?hc" using x by (simp add: h2 add_grad_def set_grad_def)
  have "heap_of (backward h2 ?z) ! x = ?hc ! x"
    unfolding step heap_of_def by (rule backward_loop_below[OF wfc lc le])
  then have "grad_of (heap_of (backward h2 ?z)) x = grad_of h x + s * (1 - s) * 2 * v"
    using x by (simp add: grad_of_def add_grad_def set_grad_def nth_append h2)
  then have g: "grad_of (heap_of (backward h2 ?z)) x = grad_of h x + 2 * v * s * (1 - s)"
    by (simp add: algebra_simps)
  have "data_of h2 ?z = Num s" by (simp add: h2 data_of_def znode_def nth_append)
  then show ?thesis using ry rz g by simp
qed


theorem chain_rule_sigmoid_square_witness:
  "wf_heap (snd (Value [] (Num 3))) \<and> 0 < length (snd (Value [] (Num 3))) \<and>
   data_of (snd (Value [] (Num 3))) 0 = Num 3 \<and>
   fst (Value_pow (snd (Value [] (Num 3))) 0 (Lit (Num 2))) = Inr 1 \<and>
   fst (sigmoid (snd (Value_pow (snd (Value [] (Num 3))) 0 (Lit (Num 2)))) 1) = Inr 2 \<and>
   grad_of (heap_of (backward
       (snd (sigmoid (snd (Value_pow (snd (Value [] (Num 3))) 0 (Lit (Num 2)))) 1)) 2)) 0 =
     2 * 3 * (1 / (1 + exp (- 9))) * (1 - 1 / (1 + exp (- 9)))"
proof -
  let ?h = "snd (Value [] (Num 3))"
  let ?p = "Value_pow ?h 0 (Lit (Num 2))"
  let ?s = "sigmoid (snd ?p) (length ?h)"
  have wf: "wf_heap ?h" by (simp add: engine_defs wf_heap_def wf_node_def)
  have a: "0 < length ?h" by (simp add: engine_defs)
  have v: "data_of ?h 0 = Num 3" by (simp add: engine_defs)
  have g: "grad_of ?h 0 = 0" "length ?h = 1" by (simp_all add: engine_defs grad_of_def)
  have pw: "?p = (fst ?p, snd ?p)" by simp
  have sg: "?s = (fst ?s, snd ?s)" by simp
  have "(1::real) / (1 + exp (- (3 ^ 2))) = 1 / (1 + exp (- 9))" by simp
  then show ?thesis
    using chain_rule_sigmoid_square[OF wf a v pw sg refl] wf a v g
    by (simp add: numeral_2_eq_2)
qed

section \<open>The order of backward propagation\<close>

lemma children_first_split:
  "children_first h S (a @ x # b) \<Longrightarrow> set (children_of h x) \<subseteq> S \<union> set a"
  by (simp add: children_first_append)

lemma precedes_append:
  assumes "c \<in> set ys"
  shows "precedes (xs @ p # ys) p c"
proof -
  obtain k where k: "k < length ys" "ys ! k = c" using assms by (auto simp: in_set_conv_nth)
  have "length xs < length xs + Suc k" by simp
  moreover have "length xs + Suc k < length (xs @ p # ys)" using k(1) by simp
  moreover have "(xs @ p # ys) ! length xs = p" by simp
  moreover have "(xs @ p # ys) ! (length xs + Suc k) = c" using k(2) by (simp add: nth_append)
  ultimately show ?thesis unfolding precedes_def by blast
qed

lemma precedes_distinct:
  assumes d: "distinct (pre @ n # post)" and p: "precedes (pre @ n # post) m n"
  shows "m \<in> set pre"
proof -
  let ?xs = "pre @ n # post"
  obtain i j where ij: "i < j" "j < length ?xs" "?xs ! i = m" "?xs ! j = n"
    using p unfolding precedes_def by blast
  have "?xs ! length pre = n" by simp
  moreover have "length pre < length ?xs" by simp
  ultimately have "j = length pre" using d ij(2,4) by (metis nth_eq_iff_index_eq)
  then have "i < length pre" using ij(1) by simp
  then have "pre ! i = m" using ij(3) by (simp add: nth_append)
  then show ?thesis using \<open>i < length pre\<close> by (auto simp: in_set_conv_nth)
qed

lemma backward_order_distinct: "distinct (backward_order h r)"
  by (simp add: backward_order_def build_graph_top(2))

lemma backward_order_precedes:
  assumes wf: "wf_heap h" and p: "p \<in> set (backward_order h r)"
    and c: "c \<in> set (children_of h p)"
  shows "precedes (backward_order h r) p c"
proof -
  let ?ns = "snd (build_graph h r ({}, []))"
  have "p \<in> set ?ns" using p by (simp add: backward_order_def)
  then obtain a b where ab: "?ns = a @ p # b" by (meson split_list)
  have "children_first h {} (a @ p # b)" using children_first_top[OF wf, of r] ab by simp
  then have "c \<in> set a" using children_first_split[of h "{}" a p b] c by auto
  then have "precedes (rev b @ p # rev a) p c" by (intro precedes_append) simp
  moreover have "backward_order h r = rev b @ p # rev a"
    by (simp add: backward_order_def ab)
  ultimately show ?thesis by simp
qed

lemma backward_loop_append:
  "backward_loop h (xs @ ys) called =
     (let r = backward_loop h xs called
      in case fst r of
           Inl e \<Rightarrow> r
         | Inr u \<Rightarrow> backward_loop (fst (snd r)) ys (snd (snd r)))"
proof (induction xs arbitrary: h called)
  case Nil
  then show ?case by simp
next
  case (Cons x xs)
  then show ?case by (auto simp: Let_def split: prod.splits sum.splits)
qed

lemma backward_loop_calls:
  "\<exists>done rest. ns = done @ rest \<and>
     snd (snd (backward_loop h ns called)) = called @ done \<and>
     (fst (backward_loop h ns called) = Inr () \<longrightarrow> rest = [])"
proof (induction ns arbitrary: h called)
  case Nil
  then show ?case by simp
next
  case (Cons n ns)
  obtain r h' where c: "call_backward h (node_backward (h ! n)) = (r, h')" by force
  show ?case
  proof (cases r)
    case (Inl e)
    have "n # ns = [n] @ ns" by simp
    then show ?thesis using c Inl by (intro exI[of _ "[n]"] exI[of _ ns]) simp
  next
    case (Inr u)
    from Cons.IH[of h' "called @ [n]"] obtain dn rest where
      r: "ns = dn @ rest"
         "snd (snd (backward_loop h' ns (called @ [n]))) = (called @ [n]) @ dn"
         "fst (backward_loop h' ns (called @ [n])) = Inr () \<longrightarrow> rest = []"
      by blast
    show ?thesis using c Inr r by (intro exI[of _ "n # dn"] exI[of _ rest]) simp
  qed
qed

lemma children_of_forget:
  assumes "map forget_grad h' = map forget_grad h"
  shows "children_of h' m = children_of h m"
proof -
  have len: "length h' = length h" using assms by (metis length_map)
  show ?thesis
  proof (cases "m < length h")
    case True
    then show ?thesis using forget_fields[OF forget_nth[OF assms True]] len
      by (simp add: children_of_def)
  next
    case False
    then show ?thesis using len by (simp add: children_of_def)
  qed
qed

lemma backward_order_bound:
  assumes "wf_heap h" and "r < length h" and "n \<in> set (backward_order h r)"
  shows "n < length h"
  using reachable_le[OF assms(1), of n r] assms(2,3) by (simp add: backward_order_set)

lemma grad_complete:
  assumes wf: "wf_heap h" and r: "r < length h"
    and ord: "backward_order h r = pre @ n # post"
  shows "grad_of (heap_of (backward_loop (set_grad h r 1) pre [])) n =
         grad_of (heap_of (backward h r)) n"
proof -
  let ?h1 = "set_grad h r 1"
  let ?R = "backward_loop ?h1 pre []"
  let ?hp = "fst (snd ?R)"
  have fp: "map forget_grad ?hp = map forget_grad h"
    using backward_loop_forget[of ?h1 pre "[]"] by simp
  have lenp: "length ?hp = length h" using fp by (metis length_map)
  have wfp: "wf_heap ?hp" by (rule wf_heap_forget[OF fp wf])
  have dist: "distinct (pre @ n # post)" using backward_order_distinct[of h r] ord by simp
  have full: "backward h r =
      (case fst ?R of Inl e \<Rightarrow> ?R | Inr u \<Rightarrow> backward_loop ?hp (n # post) (snd (snd ?R)))"
    unfolding backward_unfold ord by (simp add: backward_loop_append Let_def)
  show ?thesis
  proof (cases "fst ?R")
    case (Inl e)
    then show ?thesis using full by (simp add: heap_of_def)
  next
    case (Inr u)
    have sub: "set (n # post) \<subseteq> {..<length ?hp}"
      using backward_order_bound[OF wf r] ord lenp by auto
    have nt: "\<forall>m \<in> set (n # post). n \<notin> targets (node_backward (?hp ! m))"
    proof
      fix m assume m: "m \<in> set (n # post)"
      then have ml: "m < length ?hp" using sub by auto
      show "n \<notin> targets (node_backward (?hp ! m))"
      proof
        assume "n \<in> targets (node_backward (?hp ! m))"
        then have "n \<in> set (children_of ?hp m)" using wf_targets[OF wfp ml] by blast
        then have c: "n \<in> set (children_of h m)" by (simp add: children_of_forget[OF fp])
        have "m \<in> set (backward_order h r)" using m ord by auto
        then have "precedes (pre @ n # post) m n"
          using backward_order_precedes[OF wf _ c, of r] ord by simp
        then have "m \<in> set pre" by (rule precedes_distinct[OF dist])
        then show False using m dist by auto
      qed
    qed
    have "fst (snd (backward_loop ?hp (n # post) (snd (snd ?R)))) ! n = ?hp ! n"
      by (rule backward_loop_frame[OF sub nt])
    then show ?thesis using full Inr by (simp add: heap_of_def grad_of_def)
  qed
qed

text \<open>
  Claim C1, as amended. For every heap the constructors can build (its graph is acyclic:
  children are allocated before their parents) and every root, the list
  \<^verbatim>\<open>reversed(nodes)\<close> that \<^verbatim>\<open>backward\<close> iterates over holds each node reachable from the
  root exactly once, and every node strictly before each of its children (reverse
  post-order). \<^verbatim>\<open>backward\<close> calls the closures along this list and stops at the first one
  that raises: the nodes called are a prefix of the list, each called once, and all of the
  list when no closure raises. Whenever the turn of a node \<open>n\<close> comes, its gradient is
  complete: the value it has after the nodes before it have run is the value it has when
  \<^verbatim>\<open>backward\<close> ends, so a node shared by two paths has received the contributions of
  both before it distributes to its own children.
\<close>

theorem backward_reverse_postorder:
  assumes wf: "wf_heap h" and r: "r < length h"
  shows "distinct (backward_order h r) \<and>
         set (backward_order h r) = reachable h r \<and>
         (\<forall>p \<in> set (backward_order h r). \<forall>c \<in> set (children_of h p).
            precedes (backward_order h r) p c) \<and>
         (\<exists>rest. backward_order h r = calls_of (backward h r) @ rest) \<and>
         (outcome_of (backward h r) = Inr () \<longrightarrow> calls_of (backward h r) = backward_order h r) \<and>
         (\<forall>pre n post. backward_order h r = pre @ n # post \<longrightarrow>
            grad_of (heap_of (backward_loop (set_grad h r 1) pre [])) n =
            grad_of (heap_of (backward h r)) n)"
proof -
  from backward_loop_calls[of "backward_order h r" "set_grad h r 1" "[]"]
  obtain dn rest where c0: "backward_order h r = dn @ rest"
    "snd (snd (backward_loop (set_grad h r 1) (backward_order h r) [])) = [] @ dn"
    "fst (backward_loop (set_grad h r 1) (backward_order h r) []) = Inr () \<longrightarrow> rest = []"
    by blast
  have c: "backward_order h r = dn @ rest"
    "calls_of (backward h r) = dn"
    "outcome_of (backward h r) = Inr () \<longrightarrow> rest = []"
    using c0 by (simp_all add: backward_unfold calls_of_def outcome_of_def)
  have "\<exists>rest. backward_order h r = calls_of (backward h r) @ rest" using c by blast
  moreover have "outcome_of (backward h r) = Inr () \<longrightarrow>
      calls_of (backward h r) = backward_order h r" using c by auto
  ultimately show ?thesis
    using backward_order_distinct[of h r] backward_order_set[of h r]
      backward_order_precedes[OF wf] grad_complete[OF wf r]
    by blast
qed

lemma sqrt_heap_nodes:
  "sqrt_heap =
    [\<lparr>data = Num 0, grad = 0, label = [], children = [], node_backward = Noop,
        operation = OpLeaf\<rparr>,
     \<lparr>data = Num 0, grad = 0, label = [], children = [0],
        node_backward = PowBackward 0 1 (1 / 2), operation = OpPow (1 / 2)\<rparr>]"
  by (simp add: sqrt_heap_def engine_defs float_pow_def)

lemma sqrt_order: "backward_order sqrt_heap 1 = [1, 0]"
  by (simp add: sqrt_heap_nodes backward_order_def build_graph.simps children_of_def)

lemma diamond_backward:
  "backward diamond_heap 3 =
     (Inr (),
      [\<lparr>data = Num 3, grad = 8, label = [], children = [], node_backward = Noop,
        operation = OpLeaf\<rparr>,
     \<lparr>data = Num 2, grad = 3, label = [], children = [], node_backward = Noop,
        operation = OpLeaf\<rparr>,
     \<lparr>data = Num 5, grad = 3, label = [], children = [0, 1],
        node_backward = AddBackward 0 1 2, operation = OpAdd\<rparr>,
     \<lparr>data = Num 15, grad = 1, label = [], children = [2, 0],
        node_backward = MulBackward 2 0 3, operation = OpMul\<rparr>,
     \<lparr>data = Num 7, grad = 0, label = [], children = [], node_backward = Noop,
        operation = OpLeaf\<rparr>],
      [3, 2, 1, 0])"
  unfolding backward_unfold diamond_order
  by (simp add: diamond_heap_nodes set_grad_def add_grad_def grad_of_def data_of_def)

text \<open>
  The claim as stated fails where a closure raises: for \<^verbatim>\<open>y = Value(0) ** 0.5\<close> the
  closure of \<^verbatim>\<open>y\<close> evaluates \<^verbatim>\<open>0 ** -0.5\<close>, which raises \<^verbatim>\<open>ZeroDivisionError\<close>, and the
  closure of the reachable leaf is never called.
\<close>

theorem backward_skips_after_raise:
  "wf_heap sqrt_heap \<and> 1 < length sqrt_heap \<and> 0 \<in> reachable sqrt_heap 1 \<and>
   outcome_of (backward sqrt_heap 1) = Inl ZeroDivisionError \<and>
   calls_of (backward sqrt_heap 1) = [1] \<and>
   0 \<notin> set (calls_of (backward sqrt_heap 1))"
proof -
  have wf: "wf_heap sqrt_heap"
    by (simp add: sqrt_heap_nodes wf_heap_def wf_node_def All_less_Suc)
  have "reachable sqrt_heap 1 = {1, 0}"
    using backward_order_set[of sqrt_heap 1, unfolded sqrt_order] by auto
  then have re: "0 \<in> reachable sqrt_heap 1" by simp
  have b: "backward sqrt_heap 1 = (Inl ZeroDivisionError, set_grad sqrt_heap 1 1, [1])"
    unfolding backward_unfold sqrt_order
    by (simp add: sqrt_heap_nodes set_grad_def data_of_def float_pow_def)
  show ?thesis using wf re b by (simp add: outcome_of_def calls_of_def sqrt_heap_nodes)
qed

theorem backward_reverse_postorder_witness:
  "wf_heap diamond_heap \<and> 3 < length diamond_heap \<and>
   backward_order diamond_heap 3 = [3, 2, 1, 0] \<and>
   reachable diamond_heap 3 = {3, 2, 1, 0} \<and>
   outcome_of (backward diamond_heap 3) = Inr () \<and>
   calls_of (backward diamond_heap 3) = [3, 2, 1, 0] \<and>
   precedes (backward_order diamond_heap 3) 3 0 \<and>
   precedes (backward_order diamond_heap 3) 2 0 \<and>
   grad_of (heap_of (backward_loop (set_grad diamond_heap 3 1) [3, 2, 1] [])) 0 = 8 \<and>
   grad_of (heap_of (backward diamond_heap 3)) 0 = 8"
proof -
  have wf: "wf_heap diamond_heap" by (rule diamond_wf)
  have l: "3 < length diamond_heap" by (simp add: diamond_heap_nodes)
  note t = backward_reverse_postorder[OF wf l]
  have o: "backward_order diamond_heap 3 = [3, 2, 1] @ 0 # []" by (simp add: diamond_order)
  have c3: "0 \<in> set (children_of diamond_heap 3)" "0 \<in> set (children_of diamond_heap 2)"
    by (simp_all add: diamond_heap_nodes children_of_def)
  have m: "3 \<in> set (backward_order diamond_heap 3)" "2 \<in> set (backward_order diamond_heap 3)"
    by (simp_all add: diamond_order)
  have p: "precedes (backward_order diamond_heap 3) 3 0"
    "precedes (backward_order diamond_heap 3) 2 0"
    using t c3 m by blast+
  have r: "reachable diamond_heap 3 = {3, 2, 1, 0}" using t by (simp add: diamond_order)
  have g: "grad_of (heap_of (backward_loop (set_grad diamond_heap 3 1) [3, 2, 1] [])) 0 =
      grad_of (heap_of (backward diamond_heap 3)) 0"
    using t o by blast
  have f: "grad_of (heap_of (backward diamond_heap 3)) 0 = 8"
    by (simp add: diamond_backward heap_of_def grad_of_def)
  show ?thesis
    using wf l p r g f
    by (simp add: diamond_order diamond_backward outcome_of_def calls_of_def)
qed

section \<open>Accumulation of gradients\<close>

lemma shifted_length: "shifted x delta h1 h2 \<Longrightarrow> length h1 = length h2"
  unfolding shifted_def by (metis length_map)

lemma shifted_data:
  "shifted x delta h1 h2 \<Longrightarrow> m < length h1 \<Longrightarrow> data_of h1 m = data_of h2 m"
  unfolding shifted_def data_of_def using forget_fields forget_nth by (metis length_map)

lemma shifted_closure:
  "shifted x delta h1 h2 \<Longrightarrow> m < length h1 \<Longrightarrow>
     node_backward (h1 ! m) = node_backward (h2 ! m)"
  unfolding shifted_def using forget_fields forget_nth by (metis length_map)

lemma shifted_grad_above:
  "shifted x delta h1 h2 \<Longrightarrow> m < length h1 \<Longrightarrow> x < m \<Longrightarrow> grad_of h1 m = grad_of h2 m"
  by (simp add: shifted_def grad_of_def)

lemma shifted_add_grad:
  assumes s: "shifted x delta h1 h2" and t: "t < length h1" and d: "x \<le> t \<longrightarrow> d1 = d2"
  shows "shifted x delta (add_grad h1 t d1) (add_grad h2 t d2)"
proof -
  have len: "length h1 = length h2" by (rule shifted_length[OF s])
  have f: "map forget_grad (add_grad h1 t d1) = map forget_grad (add_grad h2 t d2)"
    using s by (simp add: shifted_def)
  have above: "\<forall>m < length (add_grad h1 t d1). x < m \<longrightarrow>
      grad (add_grad h1 t d1 ! m) = grad (add_grad h2 t d2 ! m)"
    using s t d len by (auto simp: shifted_def add_grad_def nth_list_update)
  have at: "grad (add_grad h1 t d1 ! x) = grad (add_grad h2 t d2 ! x) + delta"
    using s t d len by (cases "t = x") (auto simp: shifted_def add_grad_def nth_list_update)
  show ?thesis unfolding shifted_def using f above at by blast
qed

lemma shifted_set_grad:
  assumes s: "shifted x delta h1 h2" and t: "t < length h1" and d: "t \<noteq> x"
  shows "shifted x delta (set_grad h1 t g) (set_grad h2 t g)"
proof -
  have len: "length h1 = length h2" by (rule shifted_length[OF s])
  have f: "map forget_grad (set_grad h1 t g) = map forget_grad (set_grad h2 t g)"
    using s by (simp add: shifted_def)
  have above: "\<forall>m < length (set_grad h1 t g). x < m \<longrightarrow>
      grad (set_grad h1 t g ! m) = grad (set_grad h2 t g ! m)"
    using s t d len by (auto simp: shifted_def set_grad_def nth_list_update)
  have at: "grad (set_grad h1 t g ! x) = grad (set_grad h2 t g ! x) + delta"
    using s t d len by (auto simp: shifted_def set_grad_def nth_list_update)
  show ?thesis unfolding shifted_def using f above at by blast
qed

lemma grad_of_add_grad_other [simp]: "m \<noteq> t \<Longrightarrow> grad_of (add_grad h t d) m = grad_of h m"
  by (simp add: grad_of_def)

lemma data_of_add_grad [simp]: "data_of (add_grad h t d) m = data_of h m"
  by (cases "t < length h"; cases "m = t") (auto simp: data_of_def add_grad_def list_update_beyond)

lemma length_add_grad [simp]: "length (add_grad h t d) = length h"
  by (simp add: add_grad_def)

lemma length_set_grad [simp]: "length (set_grad h t d) = length h"
  by (simp add: set_grad_def)

lemma shifted_call_backward:
  assumes s: "shifted x delta h1 h2" and wf: "wf_heap h1" and p: "p < length h1"
  shows "fst (call_backward h1 (node_backward (h1 ! p))) =
           fst (call_backward h2 (node_backward (h1 ! p))) \<and>
         shifted x delta (snd (call_backward h1 (node_backward (h1 ! p))))
           (snd (call_backward h2 (node_backward (h1 ! p))))"
proof -
  let ?c = "node_backward (h1 ! p)"
  have ok: "closure_ok p (children (h1 ! p)) ?c" and lt: "\<forall>c \<in> set (children (h1 ! p)). c < p"
    using wf p by (auto simp: wf_heap_def wf_node_def)
  have g: "\<And>t d. t < p \<Longrightarrow> x \<le> t \<longrightarrow> grad_of h1 p * d = grad_of h2 p * d"
    using shifted_grad_above[OF s p] by auto
  have gg: "\<And>t. t < p \<Longrightarrow> x \<le> t \<Longrightarrow> grad_of h1 p = grad_of h2 p"
    using shifted_grad_above[OF s p] by auto
  have dat: "\<And>m. m < p \<Longrightarrow> data_of h1 m = data_of h2 m"
    using shifted_data[OF s] p by simp
  have ll: "\<And>m. m < p \<Longrightarrow> m < length h1" using p by simp
  have sa: "\<And>t d. t < p \<Longrightarrow>
      shifted x delta (add_grad h1 t (grad_of h1 p * d)) (add_grad h2 t (grad_of h2 p * d))"
    using shifted_add_grad[OF s ll g] by blast
  show ?thesis
  proof (cases ?c)
    case Noop
    then show ?thesis using s by simp
  next
    case (LinearBackward self out)
    then have "out = p" "self < p" using ok lt by auto
    then show ?thesis using LinearBackward sa[of self 1] by simp
  next
    case (TanhBackward self out d)
    then have "out = p" "self < p" using ok lt by auto
    then show ?thesis using TanhBackward sa[of self "1 - d ^ 2"] by simp
  next
    case (LeakyReluBackward self out alpha)
    then have "out = p" "self < p" using ok lt by auto
    then show ?thesis using LeakyReluBackward sa[of self 1] sa[of self alpha] dat s
      by (simp split: sum.splits)
  next
    case (ReluBackward self out d)
    then have "out = p" "self < p" using ok lt by auto
    then show ?thesis using ReluBackward sa[of self 1] sa[of self 0] by simp
  next
    case (SigmoidBackward self out d)
    then have o: "out = p" "self < p" using ok lt by auto
    have "x \<le> self \<longrightarrow> grad_of h1 p * d * (1 - d) = grad_of h2 p * d * (1 - d)"
      using g[OF o(2), of "d * (1 - d)"] by (simp add: mult.assoc)
    then show ?thesis using SigmoidBackward o shifted_add_grad[OF s ll] by simp
  next
    case (ExpBackward self out d)
    then have "out = p" "self < p" using ok lt by auto
    then show ?thesis using ExpBackward sa[of self d] by simp
  next
    case (AddBackward self other out)
    then have o: "out = p" "self < p" "other < p" using ok lt by auto
    have s1: "shifted x delta (add_grad h1 self (grad_of h1 p * 1)) (add_grad h2 self (grad_of h2 p * 1))"
      using sa[of self 1] o by simp
    have s2: "shifted x delta
        (add_grad (add_grad h1 self (grad_of h1 p * 1)) other (grad_of h1 p * 1))
        (add_grad (add_grad h2 self (grad_of h2 p * 1)) other (grad_of h2 p * 1))"
      by (rule shifted_add_grad[OF s1]) (use o ll gg[of other] in auto)
    show ?thesis using AddBackward o s2 by (simp add: Let_def)
  next
    case (MulBackward self other out)
    then have o: "out = p" "self < p" "other < p" using ok lt by auto
    show ?thesis
    proof (cases "data_of h2 other")
      case NotNum
      then show ?thesis using MulBackward o dat s by simp
    next
      case (Num b)
      have s1: "shifted x delta (add_grad h1 self (grad_of h1 p * b)) (add_grad h2 self (grad_of h2 p * b))"
        using sa[of self b] o by simp
      show ?thesis
      proof (cases "data_of h2 self")
        case NotNum
        then show ?thesis using MulBackward o dat s1 \<open>data_of h2 other = Num b\<close>
          by (simp add: Let_def)
      next
        case (Num a)
        have s2: "shifted x delta
          (add_grad (add_grad h1 self (grad_of h1 p * b)) other (grad_of h1 p * a))
          (add_grad (add_grad h2 self (grad_of h2 p * b)) other (grad_of h2 p * a))"
          by (rule shifted_add_grad[OF s1]) (use o ll gg[of other] in auto)
        show ?thesis using MulBackward o dat s2 Num \<open>data_of h2 other = Num b\<close>
          by (simp add: Let_def)
      qed
    qed
  next
    case (PowBackward self out e)
    then have o: "out = p" "self < p" using ok lt by auto
    have "\<And>q. x \<le> self \<longrightarrow> grad_of h1 p * e * q = grad_of h2 p * e * q"
      using g[OF o(2)] by (simp add: mult.assoc)
    then show ?thesis using PowBackward o shifted_add_grad[OF s ll] dat s
      by (simp split: sum.splits)
  qed
qed

lemma shifted_backward_loop:
  assumes "shifted x delta h1 h2" and "wf_heap h1" and "set ns \<subseteq> {..<length h1}"
  shows "fst (backward_loop h1 ns called) = fst (backward_loop h2 ns called) \<and>
         snd (snd (backward_loop h1 ns called)) = snd (snd (backward_loop h2 ns called)) \<and>
         shifted x delta (fst (snd (backward_loop h1 ns called)))
           (fst (snd (backward_loop h2 ns called)))"
  using assms
proof (induction ns arbitrary: h1 h2 called)
  case Nil
  then show ?case by simp
next
  case (Cons n ns)
  have n: "n < length h1" using Cons.prems(3) by simp
  let ?c = "node_backward (h1 ! n)"
  have c2: "node_backward (h2 ! n) = ?c" using shifted_closure[OF Cons.prems(1) n] by simp
  obtain r1 k1 where e1: "call_backward h1 ?c = (r1, k1)" by force
  obtain r2 k2 where e2: "call_backward h2 ?c = (r2, k2)" by force
  have st: "r1 = r2" "shifted x delta k1 k2"
    using shifted_call_backward[OF Cons.prems(1,2) n] e1 e2 by simp_all
  show ?case
  proof (cases r1)
    case (Inl e)
    then show ?thesis using e1 e2 st c2 by simp
  next
    case (Inr u)
    have f: "map forget_grad k1 = map forget_grad h1"
      using call_backward_forget[of h1 ?c] e1 by simp
    have wfk: "wf_heap k1" by (rule wf_heap_forget[OF f Cons.prems(2)])
    have len: "length k1 = length h1" using f by (metis length_map)
    have sub: "set ns \<subseteq> {..<length k1}" using Cons.prems(3) len by simp
    have e1': "call_backward h1 ?c = (Inr u, k1)" and e2': "call_backward h2 ?c = (Inr u, k2)"
      using e1 e2 st(1) Inr by simp_all
    show ?thesis using Cons.IH[OF st(2) wfk sub, of "called @ [n]"] e1' e2' c2 by simp
  qed
qed

lemma build_graph_children_only:
  "\<forall>v. children_of h' v = children_of h v \<Longrightarrow> build_graph h v st = build_graph h' v st"
  "\<forall>v. children_of h' v = children_of h v \<Longrightarrow> build_children h cs st = build_children h' cs st"
proof (induction h v st and h cs st rule: build_graph_build_children.induct)
  case (1 h v visited nodes)
  then show ?case
    by (cases "v \<in> visited") (simp_all add: build_graph_unvisited build_graph_visited)
next
  case (2 h st)
  then show ?case by simp
next
  case (3 h c cs st)
  then show ?case by simp
qed

lemma backward_order_forget:
  assumes "map forget_grad h' = map forget_grad h"
  shows "backward_order h' r = backward_order h r"
  using build_graph_children_only(1)[of h h' r "({}, [])"] children_of_forget[OF assms]
  by (simp add: backward_order_def)

lemma shifted_backward:
  assumes s: "shifted x delta h1 h2" and wf: "wf_heap h1" and r: "r < length h1"
    and xr: "x \<noteq> r"
  shows "outcome_of (backward h1 r) = outcome_of (backward h2 r) \<and>
         calls_of (backward h1 r) = calls_of (backward h2 r) \<and>
         shifted x delta (heap_of (backward h1 r)) (heap_of (backward h2 r))"
proof -
  have f: "map forget_grad h1 = map forget_grad h2" using s by (simp add: shifted_def)
  have o: "backward_order h1 r = backward_order h2 r" by (rule backward_order_forget[OF f])
  have s1: "shifted x delta (set_grad h1 r 1) (set_grad h2 r 1)"
    using shifted_set_grad[OF s r] xr by simp
  have wf1: "wf_heap (set_grad h1 r 1)" by (rule wf_heap_forget[OF _ wf]) simp
  have sub: "set (backward_order h1 r) \<subseteq> {..<length (set_grad h1 r 1)}"
    using backward_order_bound[OF wf r] by auto
  show ?thesis
    using shifted_backward_loop[OF s1 wf1 sub, of "[]"] o
    by (simp add: backward_unfold outcome_of_def calls_of_def heap_of_def)
qed

lemma shifted_set_grad_self:
  assumes "x < length h"
  shows "shifted x g (set_grad h x g) (set_grad h x 0)"
proof -
  have "map forget_grad (set_grad h x g) = map forget_grad (set_grad h x 0)" by simp
  moreover have "\<forall>m < length (set_grad h x g). x < m \<longrightarrow>
      grad (set_grad h x g ! m) = grad (set_grad h x 0 ! m)" by simp
  moreover have "grad (set_grad h x g ! x) = grad (set_grad h x 0 ! x) + g"
    using assms by (simp add: set_grad_def)
  ultimately show ?thesis unfolding shifted_def by blast
qed

lemma set_grad_same:
  "x < length h \<Longrightarrow> set_grad h x (grad_of h x) = h"
  by (simp add: set_grad_def grad_of_def list_update_same_conv)

lemma backward_adds:
  assumes wf: "wf_heap h" and x: "x < length h" and r: "r < length h" and xr: "x \<noteq> r"
  shows "grad_of (heap_of (backward h r)) x =
         grad_of h x + grad_of (heap_of (backward (set_grad h x 0) r)) x"
proof -
  let ?g = "grad_of h x"
  have s: "shifted x ?g h (set_grad h x 0)"
    using shifted_set_grad_self[OF x, of ?g] by (simp add: set_grad_same[OF x])
  have "shifted x ?g (heap_of (backward h r)) (heap_of (backward (set_grad h x 0) r))"
    using shifted_backward[OF s wf r xr] by simp
  then show ?thesis by (simp add: shifted_def grad_of_def)
qed

lemma backward_forget: "map forget_grad (heap_of (backward h r)) = map forget_grad h"
  using backward_loop_forget[of "set_grad h r 1" "backward_order h r" "[]"]
  by (simp add: backward_unfold heap_of_def)

lemma backward_wf: "wf_heap h \<Longrightarrow> wf_heap (heap_of (backward h r))"
  by (rule wf_heap_forget[OF backward_forget])

lemma backward_length [simp]: "length (heap_of (backward h r)) = length h"
  using backward_forget[of h r] by (metis length_map)

lemma backward_root_grad:
  assumes wf: "wf_heap h" and r: "r < length h"
  shows "grad_of (heap_of (backward h r)) r = 1"
proof -
  let ?h1 = "set_grad h r 1"
  have wf1: "wf_heap ?h1" by (rule wf_heap_forget[OF _ wf]) simp
  have le: "\<forall>n \<in> set (backward_order h r). n \<le> r"
    using reachable_le[OF wf] by (simp add: backward_order_set)
  have "fst (snd (backward_loop ?h1 (backward_order h r) [])) ! r = ?h1 ! r"
    by (rule backward_loop_below[OF wf1 _ le]) (use r in simp)
  then show ?thesis using r by (simp add: backward_unfold heap_of_def grad_of_def set_grad_def)
qed

lemma zge_refl [simp]: "zero_grad_extension h h"
  by (simp add: zero_grad_extension_def)

lemma zge_trans:
  "zero_grad_extension h h1 \<Longrightarrow> zero_grad_extension h1 h2 \<Longrightarrow> zero_grad_extension h h2"
  unfolding zero_grad_extension_def by (metis Un_iff append.assoc set_append)

lemma zge_snoc [simp]: "grad nd = 0 \<Longrightarrow> zero_grad_extension h (h @ [nd])"
  by (simp add: zero_grad_extension_def)

lemma zge_snoc2 [simp]:
  "grad nd = 0 \<Longrightarrow> grad nd' = 0 \<Longrightarrow> zero_grad_extension h (h @ [nd, nd'])"
  unfolding zero_grad_extension_def by (intro exI[of _ "[nd, nd']"]) simp

lemma set_backward_snoc2 [simp]:
  "set_backward (h @ [n1, n2]) (Suc (length h)) c = h @ [n1, n2\<lparr>node_backward := c\<rparr>]"
  by (simp add: set_backward_def list_update_append nth_append)

lemma zge_Value: "zero_grad_extension h (snd (Value h d))"
  by (simp add: Value_def Value_init_def)

lemma zge_linear: "zero_grad_extension h (snd (linear_value h a))"
  by (simp add: linear_value_def Value_init_def)

lemma zge_tanh: "zero_grad_extension h (snd (tanh_value h a))"
  by (simp add: tanh_value_def Value_init_def Let_def split: sum.splits)

lemma zge_leaky_relu: "zero_grad_extension h (snd (leaky_relu h a alpha))"
  by (simp add: leaky_relu_def Value_init_def split: sum.splits)

lemma zge_relu: "zero_grad_extension h (snd (relu h a))"
  by (simp add: relu_def Value_init_def split: sum.splits)

lemma zge_sigmoid: "zero_grad_extension h (snd (sigmoid h a))"
  by (simp add: sigmoid_def Value_init_def Let_def split: sum.splits)

lemma zge_exp: "zero_grad_extension h (snd (exp_value h a))"
  by (simp add: exp_value_def Value_init_def split: sum.splits)

lemma zge_add: "zero_grad_extension h (snd (Value_add h a b))"
  by (cases b) (simp_all add: Value_add_def Value_def Value_init_def split: sum.splits)

lemma zge_mul: "zero_grad_extension h (snd (Value_mul h a b))"
  by (cases b) (simp_all add: Value_mul_def Value_def Value_init_def split: sum.splits)

lemma zge_pow: "zero_grad_extension h (snd (Value_pow h a b))"
  by (simp add: Value_pow_def Value_init_def split: sum.splits operand.splits pyval.splits)

lemma zge_radd: "zero_grad_extension h (snd (Value_radd h a b))"
  by (simp add: Value_radd_def zge_add)

lemma zge_rmul: "zero_grad_extension h (snd (Value_rmul h a b))"
  by (simp add: Value_rmul_def zge_mul)

lemma zge_neg: "zero_grad_extension h (snd (Value_neg h a))"
  by (simp add: Value_neg_def zge_mul)

lemma zge_promote_number:
  "promote_number h b = Some (r, h1) \<Longrightarrow> zero_grad_extension h h1"
  by (cases "(h, b)" rule: promote_number.cases) (auto simp: Value_def Value_init_def)

lemma zge_sub: "zero_grad_extension h (snd (Value_sub h a b))"
proof (cases "promote_number h b")
  case None
  then show ?thesis by (simp add: Value_sub_def)
next
  case (Some p)
  obtain o' h1 where p: "p = (o', h1)" by force
  have e1: "zero_grad_extension h h1" using zge_promote_number Some p by blast
  obtain rn h2 where n: "Value_neg h1 o' = (rn, h2)" by force
  have e2: "zero_grad_extension h1 h2" using zge_neg[of h1 o'] n by simp
  show ?thesis
  proof (cases rn)
    case (Inl e)
    then show ?thesis using Some p n zge_trans[OF e1 e2] by (simp add: Value_sub_def)
  next
    case (Inr negated)
    have "zero_grad_extension h2 (snd (Value_add h2 a (Ref negated)))" by (rule zge_add)
    then show ?thesis
      using Some p n Inr zge_trans[OF zge_trans[OF e1 e2]] by (simp add: Value_sub_def)
  qed
qed

lemma zge_rsub: "zero_grad_extension h (snd (Value_rsub h a b))"
  by (simp add: Value_rsub_def zge_sub)

lemma zge_truediv: "zero_grad_extension h (snd (Value_truediv h a b))"
proof (cases "promote_number h b")
  case None
  then show ?thesis by (simp add: Value_truediv_def)
next
  case (Some p)
  obtain o' h1 where p: "p = (o', h1)" by force
  have e1: "zero_grad_extension h h1" using zge_promote_number Some p by blast
  obtain rn h2 where n: "Value_pow h1 o' (Lit (Num (- 1))) = (rn, h2)" by force
  have e2: "zero_grad_extension h1 h2" using zge_pow[of h1 o' "Lit (Num (- 1))"] n by simp
  show ?thesis
  proof (cases rn)
    case (Inl e)
    then show ?thesis using Some p n zge_trans[OF e1 e2] by (simp add: Value_truediv_def)
  next
    case (Inr recip)
    have "zero_grad_extension h2 (snd (Value_mul h2 a (Ref recip)))" by (rule zge_mul)
    then show ?thesis
      using Some p n Inr zge_trans[OF zge_trans[OF e1 e2]] by (simp add: Value_truediv_def)
  qed
qed

lemma set_grad_set_grad [simp]: "set_grad (set_grad h x g) x g' = set_grad h x g'"
  by (cases "x < length h") (simp_all add: set_grad_def list_update_beyond)

lemma grad_of_set_grad [simp]: "x < length h \<Longrightarrow> grad_of (set_grad h x g) x = g"
  by (simp add: grad_of_def set_grad_def)

text \<open>
  Claim C4, as amended. Every constructor leaves the nodes of the heap as they are and
  appends nodes whose \<^verbatim>\<open>grad\<close> is \<open>0\<close>. \<^verbatim>\<open>backward\<close> from a root \<open>r\<close> accumulates into
  every node \<open>x\<close> other than the root: whatever value \<open>g\<close> the node holds before, it
  holds \<open>g\<close> plus a contribution that does not depend on \<open>g\<close> afterwards. The root is the
  exception: its \<^verbatim>\<open>grad\<close> is assigned \<open>1\<close>, whatever it held.
\<close>

theorem grad_accumulation:
  assumes wf: "wf_heap h" and x: "x < length h" and r: "r < length h"
  shows "zero_grad_extension h (snd (Value h d)) \<and>
         zero_grad_extension h (snd (linear_value h a)) \<and>
         zero_grad_extension h (snd (tanh_value h a)) \<and>
         zero_grad_extension h (snd (leaky_relu h a alpha)) \<and>
         zero_grad_extension h (snd (relu h a)) \<and>
         zero_grad_extension h (snd (sigmoid h a)) \<and>
         zero_grad_extension h (snd (exp_value h a)) \<and>
         zero_grad_extension h (snd (Value_add h a b)) \<and>
         zero_grad_extension h (snd (Value_mul h a b)) \<and>
         zero_grad_extension h (snd (Value_pow h a b)) \<and>
         zero_grad_extension h (snd (Value_radd h a b)) \<and>
         zero_grad_extension h (snd (Value_rmul h a b)) \<and>
         zero_grad_extension h (snd (Value_neg h a)) \<and>
         zero_grad_extension h (snd (Value_sub h a b)) \<and>
         zero_grad_extension h (snd (Value_rsub h a b)) \<and>
         zero_grad_extension h (snd (Value_truediv h a b)) \<and>
         (x \<noteq> r \<longrightarrow>
            grad_of (heap_of (backward (set_grad h x g) r)) x =
              g + grad_of (heap_of (backward (set_grad h x 0) r)) x) \<and>
         grad_of (heap_of (backward (set_grad h r g) r)) r = 1"
proof -
  have wfg: "\<And>y. wf_heap (set_grad h y g)" by (rule wf_heap_forget[OF _ wf]) simp
  have B: "grad_of (heap_of (backward (set_grad h x g) r)) x =
      g + grad_of (heap_of (backward (set_grad h x 0) r)) x" if "x \<noteq> r"
    using backward_adds[OF wfg, of x x r] x r that by simp
  have C: "grad_of (heap_of (backward (set_grad h r g) r)) r = 1"
    by (rule backward_root_grad[OF wfg]) (use r in simp)
  show ?thesis
    using B C zge_Value zge_linear zge_tanh zge_leaky_relu zge_relu zge_sigmoid zge_exp
      zge_add zge_mul zge_pow zge_radd zge_rmul zge_neg zge_sub zge_rsub zge_truediv
    by simp
qed

lemma mul3_heap_nodes:
  "mul3_heap =
    [\<lparr>data = Num 2, grad = 0, label = [], children = [], node_backward = Noop,
        operation = OpLeaf\<rparr>,
     \<lparr>data = Num 3, grad = 0, label = [], children = [], node_backward = Noop,
        operation = OpLeaf\<rparr>,
     \<lparr>data = Num 6, grad = 0, label = [], children = [0, 1],
        node_backward = MulBackward 0 1 2, operation = OpMul\<rparr>]"
  by (simp add: mul3_heap_def engine_defs)

lemma mul3_backward:
  "heap_of (backward mul3_heap 2) =
    [\<lparr>data = Num 2, grad = 3, label = [], children = [], node_backward = Noop,
        operation = OpLeaf\<rparr>,
     \<lparr>data = Num 3, grad = 2, label = [], children = [], node_backward = Noop,
        operation = OpLeaf\<rparr>,
     \<lparr>data = Num 6, grad = 1, label = [], children = [0, 1],
        node_backward = MulBackward 0 1 2, operation = OpMul\<rparr>]"
proof -
  have o: "backward_order mul3_heap 2 = [2, 1, 0]"
    by (simp add: mul3_heap_nodes backward_order_def build_graph.simps children_of_def)
  show ?thesis
    unfolding backward_unfold o
    by (simp add: mul3_heap_nodes set_grad_def add_grad_def grad_of_def data_of_def heap_of_def)
qed

text \<open>
  The claim as stated fails at the root: after \<^verbatim>\<open>x = Value(2); z = x * 3; z.backward()\<close>
  the gradient \<open>3\<close> accumulated in \<^verbatim>\<open>x\<close> is overwritten with \<open>1\<close> by \<^verbatim>\<open>x.backward()\<close>.
\<close>

theorem backward_overwrites_root_grad:
  "grad_of mul3_heap 0 = 0 \<and>
   grad_of (heap_of (backward mul3_heap 2)) 0 = 3 \<and>
   grad_of (heap_of (backward (heap_of (backward mul3_heap 2)) 0)) 0 = 1"
proof -
  have o: "backward_order (heap_of (backward mul3_heap 2)) 0 = [0]"
    by (simp add: mul3_backward backward_order_def build_graph.simps children_of_def)
  have a: "grad_of mul3_heap 0 = 0" by (simp add: mul3_heap_nodes grad_of_def)
  have b: "grad_of (heap_of (backward mul3_heap 2)) 0 = 3"
    by (simp add: mul3_backward grad_of_def)
  have "grad_of (heap_of (backward (heap_of (backward mul3_heap 2)) 0)) 0 = 1"
    unfolding backward_unfold[of "heap_of (backward mul3_heap 2)" 0] o
    by (simp add: mul3_backward[unfolded heap_of_def] set_grad_def grad_of_def heap_of_def)
  with a b show ?thesis by blast
qed

theorem grad_accumulation_witness:
  "wf_heap diamond_heap \<and> 0 < length diamond_heap \<and> 3 < length diamond_heap \<and>
   zero_grad_extension diamond_heap (snd (Value_add diamond_heap 3 (Lit (Num 1)))) \<and>
   grad_of (heap_of (backward (set_grad diamond_heap 0 0) 3)) 0 = 8 \<and>
   grad_of (heap_of (backward (set_grad diamond_heap 0 5) 3)) 0 = 5 + 8 \<and>
   grad_of (heap_of (backward (set_grad diamond_heap 3 5) 3)) 3 = 1"
proof -
  have l: "0 < length diamond_heap" "3 < length diamond_heap"
    by (simp_all add: diamond_heap_nodes)
  have g0: "grad_of diamond_heap 0 = 0" by (simp add: diamond_heap_nodes grad_of_def)
  have "set_grad diamond_heap 0 0 = diamond_heap" using set_grad_same[OF l(1)] g0 by simp
  then have e: "grad_of (heap_of (backward (set_grad diamond_heap 0 0) 3)) 0 = 8"
    by (simp add: diamond_backward heap_of_def grad_of_def)
  have n: "(0::nat) \<noteq> 3" by simp
  show ?thesis
    using grad_accumulation[OF diamond_wf l(1) l(2), of _ _ _ "Lit (Num 1)" 5] diamond_wf l e n
    by simp
qed

section \<open>Two calls of backward and the gradient\<close>

text \<open>A closure that returns adds to each node the gradient of its own node times the
  derivative of its node with respect to that node.\<close>

lemma grad_of_add_grad:
  "t < length h \<Longrightarrow> grad_of (add_grad h t d) m = grad_of h m + (if m = t then d else 0)"
  by (simp add: grad_of_def add_grad_def)

lemma call_backward_weight:
  assumes ok: "closure_ok n cs c" and lt: "\<forall>k \<in> set cs. k < n" and n: "n < length h"
    and c: "call_backward h c = (Inr (), h')"
  shows "grad_of h' m =
         grad_of h m + grad_of h n * sum_list (map snd (filter (\<lambda>e. fst e = m) (local_derivs h c)))"
proof (cases c)
  case Noop
  then show ?thesis using c by simp
next
  case (LinearBackward self out)
  then show ?thesis using c ok lt n by (auto simp: grad_of_add_grad)
next
  case (TanhBackward self out d)
  then show ?thesis using c ok lt n by (auto simp: grad_of_add_grad)
next
  case (LeakyReluBackward self out alpha)
  then show ?thesis using c ok lt n
    by (cases "data_of h self") (auto simp: grad_of_add_grad)
next
  case (ReluBackward self out d)
  then show ?thesis using c ok lt n by (auto simp: grad_of_add_grad)
next
  case (SigmoidBackward self out d)
  then show ?thesis using c ok lt n by (auto simp: grad_of_add_grad)
next
  case (ExpBackward self out d)
  then show ?thesis using c ok lt n by (auto simp: grad_of_add_grad)
next
  case (AddBackward self other out)
  then show ?thesis using c ok lt n
    by (auto simp: grad_of_add_grad Let_def algebra_simps)
next
  case (MulBackward self other out)
  then show ?thesis using c ok lt n
    by (cases "data_of h other"; cases "data_of h self")
       (auto simp: grad_of_add_grad Let_def algebra_simps)
next
  case (PowBackward self out p)
  then show ?thesis using c ok lt n
    by (auto simp: grad_of_add_grad split: sum.splits)
qed


lemma local_derivs_forget:
  assumes f: "map forget_grad h' = map forget_grad h" and ok: "closure_ok n cs c"
    and lt: "\<forall>k \<in> set cs. k < n" and n: "n < length h"
  shows "local_derivs h' c = local_derivs h c"
proof -
  have d: "data_of h' k = data_of h k" if "k < n" for k
    using forget_fields[OF forget_nth[OF f, of k]] that n by (simp add: data_of_def)
  show ?thesis using ok lt d by (cases c) auto
qed

lemma order_not_child_later:
  assumes wf: "wf_heap h" and r: "r < length h"
    and ord: "backward_order h r = pre @ n # post" and m: "m \<in> set (n # post)"
  shows "n \<notin> set (children_of h m)"
proof
  assume c: "n \<in> set (children_of h m)"
  have dist: "distinct (pre @ n # post)" using backward_order_distinct[of h r] ord by simp
  have "m \<in> set (backward_order h r)" using m ord by auto
  then have "precedes (pre @ n # post) m n"
    using backward_order_precedes[OF wf _ c, of r] ord by simp
  then have "m \<in> set pre" by (rule precedes_distinct[OF dist])
  then show False using m dist by auto
qed

lemma loop_sum:
  assumes wf: "wf_heap h" and r: "r < length h"
  shows "map forget_grad hp = map forget_grad h \<Longrightarrow> backward_order h r = pre @ post \<Longrightarrow>
         fst (backward_loop hp post called) = Inr () \<Longrightarrow>
         grad_of (fst (snd (backward_loop hp post called))) m =
           grad_of hp m +
           (\<Sum>p\<leftarrow>post. grad_of (fst (snd (backward_loop hp post called))) p * weight h p m)"
proof (induction post arbitrary: pre hp called)
  case Nil
  then show ?case by simp
next
  case (Cons n post)
  let ?c = "node_backward (hp ! n)"
  obtain res h1 where cb: "call_backward hp ?c = (res, h1)" by force
  have res: "res = Inr ()" using Cons.prems(3) cb by (cases res) auto
  let ?R = "backward_loop h1 post (called @ [n])"
  let ?H = "fst (snd ?R)"
  have loop: "backward_loop hp (n # post) called = ?R" using cb res by simp
  have f1: "map forget_grad h1 = map forget_grad h"
    using call_backward_forget[of hp ?c] cb Cons.prems(1) by simp
  have lenp: "length hp = length h" using Cons.prems(1) by (metis length_map)
  have len1: "length h1 = length h" using f1 by (metis length_map)
  have nl: "n < length h"
    using backward_order_bound[OF wf r, of n] Cons.prems(2) by simp
  have clo: "?c = node_backward (h ! n)"
    using forget_fields[OF forget_nth[OF Cons.prems(1) nl]] by simp
  have ok: "closure_ok n (children (h ! n)) ?c" and lt: "\<forall>k \<in> set (children (h ! n)). k < n"
    using wf nl clo by (simp_all add: wf_heap_def wf_node_def)
  have st: "grad_of h1 k = grad_of hp k + grad_of hp n * weight h n k" for k
  proof -
    have "local_derivs hp ?c = local_derivs h ?c"
      by (rule local_derivs_forget[OF Cons.prems(1) ok lt nl])
    then show ?thesis
      using call_backward_weight[OF ok lt _ cb[unfolded res], of k] nl lenp clo
      by (simp add: weight_def)
  qed
  have nn: "n \<notin> set (children_of h n)"
    by (rule order_not_child_later[OF wf r Cons.prems(2)]) simp
  have w0: "weight h n n = 0"
  proof -
    have "n \<notin> targets (node_backward (h ! n))" using wf_targets[OF wf nl] nn by blast
    then show ?thesis by (cases "node_backward (h ! n)") (auto simp: weight_def)
  qed
  have g1: "grad_of h1 n = grad_of hp n" using st[of n] w0 by simp
  have sub: "set post \<subseteq> {..<length h1}"
    using backward_order_bound[OF wf r] Cons.prems(2) len1 by auto
  have nt: "\<forall>k \<in> set post. n \<notin> targets (node_backward (h1 ! k))"
  proof
    fix k assume k: "k \<in> set post"
    then have kl: "k < length h" using sub len1 by auto
    have "node_backward (h1 ! k) = node_backward (h ! k)"
      using forget_fields[OF forget_nth[OF f1 kl]] by simp
    moreover have "n \<notin> set (children_of h k)"
      by (rule order_not_child_later[OF wf r Cons.prems(2)]) (use k in simp)
    ultimately show "n \<notin> targets (node_backward (h1 ! k))"
      using wf_targets[OF wf kl] by auto
  qed
  have gH: "grad_of ?H n = grad_of hp n"
    using backward_loop_frame[OF sub nt, of "called @ [n]"] g1 by (simp add: grad_of_def)
  have ord': "backward_order h r = (pre @ [n]) @ post" using Cons.prems(2) by simp
  have fR: "fst ?R = Inr ()" using Cons.prems(3) loop by simp
  have IH: "grad_of ?H m = grad_of h1 m + (\<Sum>p\<leftarrow>post. grad_of ?H p * weight h p m)"
    by (rule Cons.IH[OF f1 ord' fR])
  show ?case unfolding loop using IH st[of m] gH by simp
qed


lemma local_derivs_targets: "fst ` set (local_derivs h c) = targets c"
  by (cases c) auto

lemma weight_not_child:
  assumes wf: "wf_heap h" and p: "p < length h" and n: "n \<notin> set (children_of h p)"
  shows "weight h p n = 0"
proof -
  have "n \<notin> targets (node_backward (h ! p))" using wf_targets[OF wf p] n by blast
  then have "filter (\<lambda>e. fst e = n) (local_derivs h (node_backward (h ! p))) = []"
    unfolding local_derivs_targets[symmetric, of "node_backward (h ! p)" h]
    by (auto simp: filter_empty_conv)
  then show ?thesis by (simp add: weight_def)
qed

lemma gradient_set:
  "gradient h r n =
     (if n = r then 1 else 0) + (\<Sum>p \<in> {n<..r}. gradient h r p * weight h p n)"
proof -
  have s: "set [Suc n..<Suc r] = {n<..r}" by auto
  have "(\<Sum>p\<leftarrow>[Suc n..<Suc r]. gradient h r p * weight h p n) =
        (\<Sum>p \<in> {n<..r}. gradient h r p * weight h p n)"
    unfolding interv_sum_list_conv_sum_set_nat s ..
  then show ?thesis by (subst gradient.simps) (simp only:)
qed

lemma gradient_unreachable:
  assumes wf: "wf_heap h" and r: "r < length h"
  shows "n \<notin> reachable h r \<Longrightarrow> gradient h r n = 0"
proof (induction "r - n" arbitrary: n rule: less_induct)
  case less
  have nr: "n \<noteq> r" using less.prems by auto
  have "gradient h r p * weight h p n = 0" if p: "p \<in> {n<..r}" for p
  proof (cases "n \<in> set (children_of h p)")
    case True
    then have "p \<notin> reachable h r" using less.prems reachable_child by blast
    moreover have "r - p < r - n" using p by auto
    ultimately show ?thesis using less.hyps by simp
  next
    case False
    have "p < length h" using p r by simp
    then show ?thesis using weight_not_child[OF wf _ False] by simp
  qed
  then have "(\<Sum>p \<in> {n<..r}. gradient h r p * weight h p n) = 0"
    by (intro sum.neutral ballI)
  then show ?case using nr by (subst gradient_set) (simp only: if_False)
qed

lemma finite_reachable [simp]: "finite (reachable h r)"
  using backward_order_set[of h r, symmetric] by simp

lemma gradient_reachable_sum:
  assumes wf: "wf_heap h" and r: "r < length h"
  shows "gradient h r n =
     (if n = r then 1 else 0) + (\<Sum>p \<in> reachable h r. gradient h r p * weight h p n)"
proof -
  have "(\<Sum>p \<in> {n<..r}. gradient h r p * weight h p n) =
        (\<Sum>p \<in> reachable h r. gradient h r p * weight h p n)"
  proof (rule sum.mono_neutral_cong)
    show "finite {n<..r}" by simp
    show "finite (reachable h r)" by simp
    show "gradient h r p * weight h p n = 0" if "p \<in> reachable h r - {n<..r}" for p
    proof -
      have pr: "p \<le> r" using reachable_le[OF wf, of p r] that by simp
      then have "p \<le> n" using that by auto
      then have "n \<notin> set (children_of h p)" using wf_children_less[OF wf, of n p] by auto
      then show ?thesis using weight_not_child[OF wf, of p n] pr r by simp
    qed
    show "gradient h r p * weight h p n = 0" if "p \<in> {n<..r} - reachable h r" for p
      using gradient_unreachable[OF wf r, of p] that by simp
  qed simp
  then show ?thesis by (subst gradient_set) simp
qed

lemma backward_sum:
  assumes wf: "wf_heap h" and f: "map forget_grad hp = map forget_grad h" and r: "r < length h"
    and out: "outcome_of (backward hp r) = Inr ()"
  shows "grad_of (heap_of (backward hp r)) m =
         (if m = r then 1 else grad_of hp m) +
         (\<Sum>p \<in> reachable h r. grad_of (heap_of (backward hp r)) p * weight h p m)"
proof -
  let ?h1 = "set_grad hp r 1"
  have o: "backward_order hp r = backward_order h r" by (rule backward_order_forget[OF f])
  have f1: "map forget_grad ?h1 = map forget_grad h" using f by simp
  have lenp: "length hp = length h" using f by (metis length_map)
  have fs: "fst (backward_loop ?h1 (backward_order h r) []) = Inr ()"
    using out by (simp add: backward_unfold o outcome_of_def)
  have "grad_of (fst (snd (backward_loop ?h1 (backward_order h r) []))) m =
         grad_of ?h1 m +
         (\<Sum>p\<leftarrow>backward_order h r.
            grad_of (fst (snd (backward_loop ?h1 (backward_order h r) []))) p * weight h p m)"
    by (rule loop_sum[OF wf r f1 _ fs]) simp
  moreover have "grad_of ?h1 m = (if m = r then 1 else grad_of hp m)"
    using r lenp by (simp add: grad_of_def set_grad_def)
  ultimately show ?thesis
    by (simp add: backward_unfold o heap_of_def
        sum_list_distinct_conv_sum_set[OF backward_order_distinct] backward_order_set)
qed

lemma reachable_via_child:
  "c \<in> set (children_of h p) \<Longrightarrow> x \<in> reachable h c \<Longrightarrow> x \<in> reachable h p"
  by (auto simp: reachable_def edges_def intro: converse_rtrancl_into_rtrancl)

lemma backward_gradient:
  assumes wf: "wf_heap h" and f: "map forget_grad hp = map forget_grad h" and r: "r < length h"
    and xr: "x \<noteq> r"
    and out: "outcome_of (backward hp r) = Inr ()"
    and Z: "\<forall>n \<in> reachable h r. n \<noteq> r \<and> n \<noteq> x \<and> x \<in> reachable h n \<longrightarrow>
              grad_of hp n = 0"
  shows "grad_of (heap_of (backward hp r)) x = grad_of hp x + gradient h r x"
proof -
  let ?F = "\<lambda>n. grad_of (heap_of (backward hp r)) n"
  have A: "n \<in> reachable h r \<Longrightarrow> x \<in> reachable h n \<Longrightarrow> n \<noteq> x \<Longrightarrow> ?F n = gradient h r n" for n
  proof (induction "r - n" arbitrary: n rule: less_induct)
    case less
    have I: "(if n = r then 1 else grad_of hp n) = (if n = r then 1 else 0)"
      using Z less.prems by auto
    have "(\<Sum>p \<in> reachable h r. ?F p * weight h p n) =
          (\<Sum>p \<in> reachable h r. gradient h r p * weight h p n)"
    proof (rule sum.cong[OF refl])
      fix p assume p: "p \<in> reachable h r"
      have pl: "p < length h" using reachable_le[OF wf p] r by simp
      show "?F p * weight h p n = gradient h r p * weight h p n"
      proof (cases "n \<in> set (children_of h p)")
        case True
        have np: "n < p" by (rule wf_children_less[OF wf True])
        have xn: "x \<le> n" by (rule reachable_le[OF wf less.prems(2)])
        have "r - p < r - n" using np reachable_le[OF wf p] by simp
        moreover have "x \<in> reachable h p" by (rule reachable_via_child[OF True less.prems(2)])
        moreover have "p \<noteq> x" using np xn by simp
        ultimately have "?F p = gradient h r p" using less.hyps p by blast
        then show ?thesis by simp
      next
        case False
        then show ?thesis using weight_not_child[OF wf pl False] by simp
      qed
    qed
    then show ?case
      using backward_sum[OF wf f r out, of n] gradient_reachable_sum[OF wf r, of n] I by simp
  qed
  have "(\<Sum>p \<in> reachable h r. ?F p * weight h p x) =
        (\<Sum>p \<in> reachable h r. gradient h r p * weight h p x)"
  proof (rule sum.cong[OF refl])
    fix p assume p: "p \<in> reachable h r"
    have pl: "p < length h" using reachable_le[OF wf p] r by simp
    show "?F p * weight h p x = gradient h r p * weight h p x"
    proof (cases "x \<in> set (children_of h p)")
      case True
      have "x < p" by (rule wf_children_less[OF wf True])
      moreover have "x \<in> reachable h p" by (rule reachable_via_child[OF True]) simp
      ultimately have "?F p = gradient h r p" using A[OF p] by simp
      then show ?thesis by simp
    next
      case False
      then show ?thesis using weight_not_child[OF wf pl False] by simp
    qed
  qed
  then show ?thesis
    using backward_sum[OF wf f r out, of x] gradient_reachable_sum[OF wf r, of x] xr by simp
qed

lemma backward_unreachable:
  assumes wf: "wf_heap h" and r: "r < length h" and m: "m \<notin> reachable h r"
  shows "heap_of (backward h r) ! m = h ! m"
proof -
  let ?h1 = "set_grad h r 1"
  have mr: "m \<noteq> r" using m by (auto simp: reachable_def)
  have sub: "set (backward_order h r) \<subseteq> {..<length ?h1}"
    using backward_order_bound[OF wf r] by auto
  have "\<forall>n \<in> set (backward_order h r). m \<notin> targets (node_backward (?h1 ! n))"
  proof
    fix n assume n: "n \<in> set (backward_order h r)"
    then have nr: "n \<in> reachable h r" by (simp add: backward_order_set)
    have nl: "n < length h" by (rule backward_order_bound[OF wf r n])
    have "node_backward (?h1 ! n) = node_backward (h ! n)"
      using r by (simp add: set_grad_def nth_list_update)
    moreover have "targets (node_backward (h ! n)) \<subseteq> reachable h r"
      using wf_targets[OF wf nl] reachable_child[OF nr] by blast
    ultimately show "m \<notin> targets (node_backward (?h1 ! n))" using m by auto
  qed
  then have "heap_of (backward h r) ! m = ?h1 ! m"
    using backward_loop_frame[OF sub, of m "[]"] by (simp add: backward_unfold heap_of_def)
  then show ?thesis using mr by simp
qed

text \<open>
  Claim C3, as amended. For every node \<^verbatim>\<open>x\<close> (a leaf in particular) and every two outputs
  \<^verbatim>\<open>z1\<close> and \<^verbatim>\<open>z2\<close> other than \<^verbatim>\<open>x\<close>, calling \<^verbatim>\<open>z1.backward()\<close> and then \<^verbatim>\<open>z2.backward()\<close>
  without resetting \<^verbatim>\<open>grad\<close> leaves in \<^verbatim>\<open>x.grad\<close> what it held before plus the derivative of
  \<^verbatim>\<open>z1\<close> with respect to \<^verbatim>\<open>x\<close> plus the derivative of \<^verbatim>\<open>z2\<close> with respect to \<^verbatim>\<open>x\<close> (the
  second call adds to what the first has left; derivatives \<open>d\<close> and \<open>- d\<close> cancel to
  exactly \<open>0\<close> when \<^verbatim>\<open>x.grad\<close> was \<open>0\<close>), provided that neither call raises and that no
  node on a path from an output down to \<^verbatim>\<open>x\<close>, other than the output and \<^verbatim>\<open>x\<close>, holds a
  gradient when the call on that output starts: such nodes have \<^verbatim>\<open>grad = 0\<close> at the
  beginning, and those below \<^verbatim>\<open>z2\<close> are not part of the graph of \<^verbatim>\<open>z1\<close>. The derivatives
  are those of the chain rule, \<open>gradient\<close>, not what \<^verbatim>\<open>backward\<close> happens to store.
\<close>

theorem backward_twice_gradient:
  assumes wf: "wf_heap h" and x: "x < length h" and z1: "z1 < length h" and z2: "z2 < length h"
    and xz1: "x \<noteq> z1" and xz2: "x \<noteq> z2"
    and o1: "outcome_of (backward h z1) = Inr ()"
    and o2: "outcome_of (backward (heap_of (backward h z1)) z2) = Inr ()"
    and fresh1: "\<forall>n \<in> reachable h z1. n \<noteq> z1 \<and> n \<noteq> x \<and> x \<in> reachable h n \<longrightarrow>
                   grad_of h n = 0"
    and fresh2: "\<forall>n \<in> reachable h z2. n \<noteq> z2 \<and> n \<noteq> x \<and> x \<in> reachable h n \<longrightarrow>
                   grad_of h n = 0 \<and> n \<notin> reachable h z1"
  shows "grad_of (heap_of (backward h z1)) x = grad_of h x + gradient h z1 x \<and>
         grad_of (heap_of (backward (heap_of (backward h z1)) z2)) x =
           grad_of h x + gradient h z1 x + gradient h z2 x \<and>
         (grad_of h x = 0 \<and> gradient h z2 x = - gradient h z1 x \<longrightarrow>
            grad_of (heap_of (backward (heap_of (backward h z1)) z2)) x = 0)"
proof -
  let ?h1 = "heap_of (backward h z1)"
  have a1: "grad_of ?h1 x = grad_of h x + gradient h z1 x"
    by (rule backward_gradient[OF wf refl z1 xz1 o1 fresh1])
  have f1: "map forget_grad ?h1 = map forget_grad h" by (rule backward_forget)
  have Z2: "\<forall>n \<in> reachable h z2. n \<noteq> z2 \<and> n \<noteq> x \<and> x \<in> reachable h n \<longrightarrow>
      grad_of ?h1 n = 0"
  proof (intro ballI impI)
    fix n assume n: "n \<in> reachable h z2" and b: "n \<noteq> z2 \<and> n \<noteq> x \<and> x \<in> reachable h n"
    have g: "grad_of h n = 0" and u: "n \<notin> reachable h z1" using fresh2 n b by blast+
    show "grad_of ?h1 n = 0"
      using backward_unreachable[OF wf z1 u] g by (simp add: grad_of_def)
  qed
  have a2: "grad_of (heap_of (backward ?h1 z2)) x = grad_of ?h1 x + gradient h z2 x"
    by (rule backward_gradient[OF wf f1 z2 xz2 o2 Z2])
  show ?thesis using a1 a2 by simp
qed

lemma shared_heap_nodes:
  "shared_heap =
    [\<lparr>data = Num 3, grad = 0, label = [], children = [], node_backward = Noop,
        operation = OpLeaf\<rparr>,
     \<lparr>data = Num 2, grad = 0, label = [], children = [], node_backward = Noop,
        operation = OpLeaf\<rparr>,
     \<lparr>data = Num 6, grad = 0, label = [], children = [0, 1],
        node_backward = MulBackward 0 1 2, operation = OpMul\<rparr>,
     \<lparr>data = Num 1, grad = 0, label = [], children = [], node_backward = Noop,
        operation = OpLeaf\<rparr>,
     \<lparr>data = Num 7, grad = 0, label = [], children = [2, 3],
        node_backward = AddBackward 2 3 4, operation = OpAdd\<rparr>,
     \<lparr>data = Num 3, grad = 0, label = [], children = [], node_backward = Noop,
        operation = OpLeaf\<rparr>,
     \<lparr>data = Num 18, grad = 0, label = [], children = [2, 5],
        node_backward = MulBackward 2 5 6, operation = OpMul\<rparr>]"
  by (simp add: shared_heap_def engine_defs)

lemma shared_order4: "backward_order shared_heap 4 = [4, 3, 2, 1, 0]"
  by (simp add: shared_heap_nodes backward_order_def build_graph.simps children_of_def)

lemma shared_order6: "backward_order shared_heap 6 = [6, 5, 2, 1, 0]"
  by (simp add: shared_heap_nodes backward_order_def build_graph.simps children_of_def)

lemma shared_first:
  "backward shared_heap 4 =
   (Inr (),
    [\<lparr>data = Num 3, grad = 2, label = [], children = [], node_backward = Noop,
        operation = OpLeaf\<rparr>,
     \<lparr>data = Num 2, grad = 3, label = [], children = [], node_backward = Noop,
        operation = OpLeaf\<rparr>,
     \<lparr>data = Num 6, grad = 1, label = [], children = [0, 1],
        node_backward = MulBackward 0 1 2, operation = OpMul\<rparr>,
     \<lparr>data = Num 1, grad = 1, label = [], children = [], node_backward = Noop,
        operation = OpLeaf\<rparr>,
     \<lparr>data = Num 7, grad = 1, label = [], children = [2, 3],
        node_backward = AddBackward 2 3 4, operation = OpAdd\<rparr>,
     \<lparr>data = Num 3, grad = 0, label = [], children = [], node_backward = Noop,
        operation = OpLeaf\<rparr>,
     \<lparr>data = Num 18, grad = 0, label = [], children = [2, 5],
        node_backward = MulBackward 2 5 6, operation = OpMul\<rparr>],
    [4, 3, 2, 1, 0])"
  unfolding backward_unfold shared_order4
  by (simp add: shared_heap_nodes set_grad_def add_grad_def grad_of_def data_of_def)

lemma shared_closures:
  "node_backward (shared_heap ! 0) = Noop"
  "node_backward (shared_heap ! Suc 0) = Noop"
  "node_backward (shared_heap ! 2) = MulBackward 0 1 2"
  "node_backward (shared_heap ! 3) = Noop"
  "node_backward (shared_heap ! 4) = AddBackward 2 3 4"
  "node_backward (shared_heap ! 5) = Noop"
  "node_backward (shared_heap ! 6) = MulBackward 2 5 6"
  "data_of shared_heap 0 = Num 3"
  "data_of shared_heap (Suc 0) = Num 2"
  "data_of shared_heap 2 = Num 6"
  "data_of shared_heap 5 = Num 3"
  by (simp_all add: shared_heap_nodes data_of_def)

lemma upt_two: "[Suc (Suc 0)..<n] = [2..<n]"
  by (simp add: numeral_2_eq_2)

lemma upt_one: "1 < n \<Longrightarrow> [Suc 0..<n] = Suc 0 # [2..<n]"
  by (simp add: upt_conv_Cons numeral_2_eq_2)

lemma gradient_root [simp]: "gradient h r r = 1"
  by (subst gradient.simps) simp

lemma shared_gradient4: "gradient shared_heap 4 0 = 2"
proof -
  have g3: "gradient shared_heap 4 3 = 1"
    by (subst gradient.simps) (simp add: weight_def shared_closures)
  have g2: "gradient shared_heap 4 2 = 1"
    by (subst gradient.simps) (simp add: g3 weight_def shared_closures)
  have g1: "gradient shared_heap 4 (Suc 0) = 3"
    by (subst gradient.simps) (simp add: g3 g2 weight_def shared_closures upt_two)
  show ?thesis
    by (subst gradient.simps) (simp add: g3 g2 g1 weight_def shared_closures upt_one)
qed

lemma shared_gradient6: "gradient shared_heap 6 0 = 6"
proof -
  have g5: "gradient shared_heap 6 5 = 6"
    by (subst gradient.simps) (simp add: weight_def shared_closures)
  have g4: "gradient shared_heap 6 4 = 0"
    by (subst gradient.simps) (simp add: g5 weight_def shared_closures)
  have g3: "gradient shared_heap 6 3 = 0"
    by (subst gradient.simps) (simp add: g5 g4 weight_def shared_closures)
  have g2: "gradient shared_heap 6 2 = 3"
    by (subst gradient.simps) (simp add: g5 g4 g3 weight_def shared_closures)
  have g1: "gradient shared_heap 6 (Suc 0) = 9"
    by (subst gradient.simps) (simp add: g5 g4 g3 g2 weight_def shared_closures upt_two)
  show ?thesis
    by (subst gradient.simps) (simp add: g5 g4 g3 g2 g1 weight_def shared_closures upt_one)
qed


lemma shared_second:
  "backward (heap_of (backward shared_heap 4)) 6 =
   (Inr (),
    [\<lparr>data = Num 3, grad = 10, label = [], children = [], node_backward = Noop,
        operation = OpLeaf\<rparr>,
     \<lparr>data = Num 2, grad = 15, label = [], children = [], node_backward = Noop,
        operation = OpLeaf\<rparr>,
     \<lparr>data = Num 6, grad = 4, label = [], children = [0, 1],
        node_backward = MulBackward 0 1 2, operation = OpMul\<rparr>,
     \<lparr>data = Num 1, grad = 1, label = [], children = [], node_backward = Noop,
        operation = OpLeaf\<rparr>,
     \<lparr>data = Num 7, grad = 1, label = [], children = [2, 3],
        node_backward = AddBackward 2 3 4, operation = OpAdd\<rparr>,
     \<lparr>data = Num 3, grad = 6, label = [], children = [], node_backward = Noop,
        operation = OpLeaf\<rparr>,
     \<lparr>data = Num 18, grad = 1, label = [], children = [2, 5],
        node_backward = MulBackward 2 5 6, operation = OpMul\<rparr>],
    [6, 5, 2, 1, 0])"
proof -
  have o: "backward_order (heap_of (backward shared_heap 4)) 6 = [6, 5, 2, 1, 0]"
    using backward_order_forget[OF backward_forget, of shared_heap 4 6]
    by (simp add: shared_order6)
  show ?thesis
    unfolding backward_unfold[of "heap_of (backward shared_heap 4)" 6] o
    unfolding shared_first heap_of_def
    by (simp add: set_grad_def add_grad_def grad_of_def data_of_def)
qed

lemma shared_alone:
  "grad_of (heap_of (backward shared_heap 6)) 0 = 6"
  unfolding backward_unfold shared_order6
  by (simp add: shared_heap_nodes set_grad_def add_grad_def grad_of_def data_of_def heap_of_def)

text \<open>
  Without the proviso the claim fails. In \<^verbatim>\<open>x = Value(3); y = x * 2; z1 = y + 1; z2 = y * 3\<close>
  the derivatives of \<^verbatim>\<open>z1\<close> and \<^verbatim>\<open>z2\<close> with respect to \<^verbatim>\<open>x\<close> are \<open>2\<close> and \<open>6\<close>, which is
  also what each call alone leaves in \<^verbatim>\<open>x.grad\<close>; \<^verbatim>\<open>z1.backward(); z2.backward()\<close> leaves
  \<open>10\<close>, because the second call finds \<open>1\<close> in \<^verbatim>\<open>y.grad\<close> from the first, raises it to \<open>4\<close>
  and passes \<open>4 * 2\<close> on to \<^verbatim>\<open>x\<close>.
\<close>

theorem backward_twice_shared_intermediate:
  "grad_of shared_heap 0 = 0 \<and>
   gradient shared_heap 4 0 = 2 \<and> gradient shared_heap 6 0 = 6 \<and>
   outcome_of (backward shared_heap 4) = Inr () \<and>
   grad_of (heap_of (backward shared_heap 4)) 0 = 2 \<and>
   grad_of (heap_of (backward shared_heap 6)) 0 = 6 \<and>
   outcome_of (backward (heap_of (backward shared_heap 4)) 6) = Inr () \<and>
   grad_of (heap_of (backward (heap_of (backward shared_heap 4)) 6)) 0 = 10"
proof -
  have "grad_of shared_heap 0 = 0" by (simp add: shared_heap_nodes grad_of_def)
  moreover have "outcome_of (backward shared_heap 4) = Inr ()"
    "grad_of (heap_of (backward shared_heap 4)) 0 = 2"
    by (simp_all add: shared_first outcome_of_def heap_of_def grad_of_def)
  moreover have "outcome_of (backward (heap_of (backward shared_heap 4)) 6) = Inr ()"
    "grad_of (heap_of (backward (heap_of (backward shared_heap 4)) 6)) 0 = 10"
    unfolding shared_second by (simp_all add: outcome_of_def heap_of_def grad_of_def)
  ultimately show ?thesis using shared_gradient4 shared_gradient6 shared_alone by simp
qed

lemma separate_heap_nodes:
  "separate_heap =
    [\<lparr>data = Num 3, grad = 0, label = [], children = [], node_backward = Noop,
        operation = OpLeaf\<rparr>,
     \<lparr>data = Num 2, grad = 0, label = [], children = [], node_backward = Noop,
        operation = OpLeaf\<rparr>,
     \<lparr>data = Num 6, grad = 0, label = [], children = [0, 1],
        node_backward = MulBackward 0 1 2, operation = OpMul\<rparr>,
     \<lparr>data = Num 1, grad = 0, label = [], children = [], node_backward = Noop,
        operation = OpLeaf\<rparr>,
     \<lparr>data = Num 7, grad = 0, label = [], children = [2, 3],
        node_backward = AddBackward 2 3 4, operation = OpAdd\<rparr>,
     \<lparr>data = Num 4, grad = 0, label = [], children = [], node_backward = Noop,
        operation = OpLeaf\<rparr>,
     \<lparr>data = Num 12, grad = 0, label = [], children = [0, 5],
        node_backward = MulBackward 0 5 6, operation = OpMul\<rparr>,
     \<lparr>data = Num 5, grad = 0, label = [], children = [], node_backward = Noop,
        operation = OpLeaf\<rparr>,
     \<lparr>data = Num 60, grad = 0, label = [], children = [6, 7],
        node_backward = MulBackward 6 7 8, operation = OpMul\<rparr>]"
  by (simp add: separate_heap_def engine_defs)

lemma separate_wf: "wf_heap separate_heap"
  by (simp add: separate_heap_nodes wf_heap_def wf_node_def All_less_Suc)

lemma separate_order4: "backward_order separate_heap 4 = [4, 3, 2, 1, 0]"
  by (simp add: separate_heap_nodes backward_order_def build_graph.simps children_of_def)

lemma separate_order8: "backward_order separate_heap 8 = [8, 7, 6, 5, 0]"
  by (simp add: separate_heap_nodes backward_order_def build_graph.simps children_of_def)

lemma separate_first:
  "backward separate_heap 4 =
   (Inr (),
    [\<lparr>data = Num 3, grad = 2, label = [], children = [], node_backward = Noop,
        operation = OpLeaf\<rparr>,
     \<lparr>data = Num 2, grad = 3, label = [], children = [], node_backward = Noop,
        operation = OpLeaf\<rparr>,
     \<lparr>data = Num 6, grad = 1, label = [], children = [0, 1],
        node_backward = MulBackward 0 1 2, operation = OpMul\<rparr>,
     \<lparr>data = Num 1, grad = 1, label = [], children = [], node_backward = Noop,
        operation = OpLeaf\<rparr>,
     \<lparr>data = Num 7, grad = 1, label = [], children = [2, 3],
        node_backward = AddBackward 2 3 4, operation = OpAdd\<rparr>,
     \<lparr>data = Num 4, grad = 0, label = [], children = [], node_backward = Noop,
        operation = OpLeaf\<rparr>,
     \<lparr>data = Num 12, grad = 0, label = [], children = [0, 5],
        node_backward = MulBackward 0 5 6, operation = OpMul\<rparr>,
     \<lparr>data = Num 5, grad = 0, label = [], children = [], node_backward = Noop,
        operation = OpLeaf\<rparr>,
     \<lparr>data = Num 60, grad = 0, label = [], children = [6, 7],
        node_backward = MulBackward 6 7 8, operation = OpMul\<rparr>],
    [4, 3, 2, 1, 0])"
  unfolding backward_unfold separate_order4
  by (simp add: separate_heap_nodes set_grad_def add_grad_def grad_of_def data_of_def)

lemma separate_second:
  "backward (heap_of (backward separate_heap 4)) 8 =
   (Inr (),
    [\<lparr>data = Num 3, grad = 22, label = [], children = [], node_backward = Noop,
        operation = OpLeaf\<rparr>,
     \<lparr>data = Num 2, grad = 3, label = [], children = [], node_backward = Noop,
        operation = OpLeaf\<rparr>,
     \<lparr>data = Num 6, grad = 1, label = [], children = [0, 1],
        node_backward = MulBackward 0 1 2, operation = OpMul\<rparr>,
     \<lparr>data = Num 1, grad = 1, label = [], children = [], node_backward = Noop,
        operation = OpLeaf\<rparr>,
     \<lparr>data = Num 7, grad = 1, label = [], children = [2, 3],
        node_backward = AddBackward 2 3 4, operation = OpAdd\<rparr>,
     \<lparr>data = Num 4, grad = 15, label = [], children = [], node_backward = Noop,
        operation = OpLeaf\<rparr>,
     \<lparr>data = Num 12, grad = 5, label = [], children = [0, 5],
        node_backward = MulBackward 0 5 6, operation = OpMul\<rparr>,
     \<lparr>data = Num 5, grad = 12, label = [], children = [], node_backward = Noop,
        operation = OpLeaf\<rparr>,
     \<lparr>data = Num 60, grad = 1, label = [], children = [6, 7],
        node_backward = MulBackward 6 7 8, operation = OpMul\<rparr>],
    [8, 7, 6, 5, 0])"
proof -
  have o: "backward_order (heap_of (backward separate_heap 4)) 8 = [8, 7, 6, 5, 0]"
    using backward_order_forget[OF backward_forget, of separate_heap 4 8]
    by (simp add: separate_order8)
  show ?thesis
    unfolding backward_unfold[of "heap_of (backward separate_heap 4)" 8] o
    unfolding separate_first heap_of_def
    by (simp add: set_grad_def add_grad_def grad_of_def data_of_def)
qed

lemma separate_closures:
  "node_backward (separate_heap ! 0) = Noop"
  "node_backward (separate_heap ! Suc 0) = Noop"
  "node_backward (separate_heap ! 2) = MulBackward 0 1 2"
  "node_backward (separate_heap ! 3) = Noop"
  "node_backward (separate_heap ! 4) = AddBackward 2 3 4"
  "node_backward (separate_heap ! 5) = Noop"
  "node_backward (separate_heap ! 6) = MulBackward 0 5 6"
  "node_backward (separate_heap ! 7) = Noop"
  "node_backward (separate_heap ! 8) = MulBackward 6 7 8"
  "data_of separate_heap 0 = Num 3"
  "data_of separate_heap (Suc 0) = Num 2"
  "data_of separate_heap 5 = Num 4"
  "data_of separate_heap 6 = Num 12"
  "data_of separate_heap 7 = Num 5"
  by (simp_all add: separate_heap_nodes data_of_def)

lemma separate_gradient4: "gradient separate_heap 4 0 = 2"
proof -
  have g3: "gradient separate_heap 4 3 = 1"
    by (subst gradient.simps) (simp add: weight_def separate_closures)
  have g2: "gradient separate_heap 4 2 = 1"
    by (subst gradient.simps) (simp add: g3 weight_def separate_closures)
  have g1: "gradient separate_heap 4 (Suc 0) = 3"
    by (subst gradient.simps) (simp add: g3 g2 weight_def separate_closures upt_two)
  show ?thesis
    by (subst gradient.simps) (simp add: g3 g2 g1 weight_def separate_closures upt_one)
qed

lemma separate_gradient8: "gradient separate_heap 8 0 = 20"
proof -
  have g7: "gradient separate_heap 8 7 = 12"
    by (subst gradient.simps) (simp add: weight_def separate_closures)
  have g6: "gradient separate_heap 8 6 = 5"
    by (subst gradient.simps) (simp add: g7 weight_def separate_closures)
  have g5: "gradient separate_heap 8 5 = 15"
    by (subst gradient.simps) (simp add: g7 g6 weight_def separate_closures)
  have g4: "gradient separate_heap 8 4 = 0"
    by (subst gradient.simps) (simp add: g7 g6 g5 weight_def separate_closures)
  have g3: "gradient separate_heap 8 3 = 0"
    by (subst gradient.simps) (simp add: g7 g6 g5 g4 weight_def separate_closures)
  have g2: "gradient separate_heap 8 2 = 0"
    by (subst gradient.simps) (simp add: g7 g6 g5 g4 g3 weight_def separate_closures)
  have g1: "gradient separate_heap 8 (Suc 0) = 0"
    by (subst gradient.simps) (simp add: g7 g6 g5 g4 g3 g2 weight_def separate_closures upt_two)
  show ?thesis
    by (subst gradient.simps)
       (simp add: g7 g6 g5 g4 g3 g2 g1 weight_def separate_closures upt_one)
qed

lemma sub_neg_heap_nodes:
  "sub_neg_heap =
    [\<lparr>data = Num 3, grad = 0, label = [], children = [], node_backward = Noop,
        operation = OpLeaf\<rparr>,
     \<lparr>data = Num 2, grad = 0, label = [], children = [], node_backward = Noop,
        operation = OpLeaf\<rparr>,
     \<lparr>data = Num (- 1), grad = 0, label = [], children = [], node_backward = Noop,
        operation = OpLeaf\<rparr>,
     \<lparr>data = Num (- 2), grad = 0, label = [], children = [1, 2],
        node_backward = MulBackward 1 2 3, operation = OpMul\<rparr>,
     \<lparr>data = Num 1, grad = 0, label = [], children = [0, 3],
        node_backward = AddBackward 0 3 4, operation = OpAdd\<rparr>,
     \<lparr>data = Num (- 1), grad = 0, label = [], children = [], node_backward = Noop,
        operation = OpLeaf\<rparr>,
     \<lparr>data = Num (- 3), grad = 0, label = [], children = [0, 5],
        node_backward = MulBackward 0 5 6, operation = OpMul\<rparr>]"
  by (simp add: sub_neg_heap_def engine_defs)

lemma sub_neg_wf: "wf_heap sub_neg_heap"
  by (simp add: sub_neg_heap_nodes wf_heap_def wf_node_def All_less_Suc)

lemma sub_neg_order4: "backward_order sub_neg_heap 4 = [4, 3, 2, 1, 0]"
  by (simp add: sub_neg_heap_nodes backward_order_def build_graph.simps children_of_def)

lemma sub_neg_order6: "backward_order sub_neg_heap 6 = [6, 5, 0]"
  by (simp add: sub_neg_heap_nodes backward_order_def build_graph.simps children_of_def)

lemma sub_neg_closures:
  "node_backward (sub_neg_heap ! 0) = Noop"
  "node_backward (sub_neg_heap ! Suc 0) = Noop"
  "node_backward (sub_neg_heap ! 2) = Noop"
  "node_backward (sub_neg_heap ! 3) = MulBackward 1 2 3"
  "node_backward (sub_neg_heap ! 4) = AddBackward 0 3 4"
  "node_backward (sub_neg_heap ! 5) = Noop"
  "node_backward (sub_neg_heap ! 6) = MulBackward 0 5 6"
  "data_of sub_neg_heap 0 = Num 3"
  "data_of sub_neg_heap (Suc 0) = Num 2"
  "data_of sub_neg_heap 2 = Num (- 1)"
  "data_of sub_neg_heap 5 = Num (- 1)"
  by (simp_all add: sub_neg_heap_nodes data_of_def)

lemma sub_neg_gradient4: "gradient sub_neg_heap 4 0 = 1"
proof -
  have g3: "gradient sub_neg_heap 4 3 = 1"
    by (subst gradient.simps) (simp add: weight_def sub_neg_closures)
  have g2: "gradient sub_neg_heap 4 2 = 2"
    by (subst gradient.simps) (simp add: g3 weight_def sub_neg_closures)
  have g1: "gradient sub_neg_heap 4 (Suc 0) = - 1"
    by (subst gradient.simps) (simp add: g3 g2 weight_def sub_neg_closures upt_two)
  show ?thesis
    by (subst gradient.simps) (simp add: g3 g2 g1 weight_def sub_neg_closures upt_one)
qed

lemma sub_neg_gradient6: "gradient sub_neg_heap 6 0 = - 1"
proof -
  have g5: "gradient sub_neg_heap 6 5 = 3"
    by (subst gradient.simps) (simp add: weight_def sub_neg_closures)
  have g4: "gradient sub_neg_heap 6 4 = 0"
    by (subst gradient.simps) (simp add: g5 weight_def sub_neg_closures)
  have g3: "gradient sub_neg_heap 6 3 = 0"
    by (subst gradient.simps) (simp add: g5 g4 weight_def sub_neg_closures)
  have g2: "gradient sub_neg_heap 6 2 = 0"
    by (subst gradient.simps) (simp add: g5 g4 g3 weight_def sub_neg_closures)
  have g1: "gradient sub_neg_heap 6 (Suc 0) = 0"
    by (subst gradient.simps) (simp add: g5 g4 g3 g2 weight_def sub_neg_closures upt_two)
  show ?thesis
    by (subst gradient.simps) (simp add: g5 g4 g3 g2 g1 weight_def sub_neg_closures upt_one)
qed

lemma sub_neg_backward4:
  "backward sub_neg_heap 4 =
   (Inr (),
    [\<lparr>data = Num 3, grad = 1, label = [], children = [], node_backward = Noop,
        operation = OpLeaf\<rparr>,
     \<lparr>data = Num 2, grad = - 1, label = [], children = [], node_backward = Noop,
        operation = OpLeaf\<rparr>,
     \<lparr>data = Num (- 1), grad = 2, label = [], children = [], node_backward = Noop,
        operation = OpLeaf\<rparr>,
     \<lparr>data = Num (- 2), grad = 1, label = [], children = [1, 2],
        node_backward = MulBackward 1 2 3, operation = OpMul\<rparr>,
     \<lparr>data = Num 1, grad = 1, label = [], children = [0, 3],
        node_backward = AddBackward 0 3 4, operation = OpAdd\<rparr>,
     \<lparr>data = Num (- 1), grad = 0, label = [], children = [], node_backward = Noop,
        operation = OpLeaf\<rparr>,
     \<lparr>data = Num (- 3), grad = 0, label = [], children = [0, 5],
        node_backward = MulBackward 0 5 6, operation = OpMul\<rparr>],
    [4, 3, 2, 1, 0])"
  unfolding backward_unfold sub_neg_order4
  by (simp add: sub_neg_heap_nodes set_grad_def add_grad_def grad_of_def data_of_def)

lemma sub_neg_backward6:
  "backward (heap_of (backward sub_neg_heap 4)) 6 =
   (Inr (),
    [\<lparr>data = Num 3, grad = 0, label = [], children = [], node_backward = Noop,
        operation = OpLeaf\<rparr>,
     \<lparr>data = Num 2, grad = - 1, label = [], children = [], node_backward = Noop,
        operation = OpLeaf\<rparr>,
     \<lparr>data = Num (- 1), grad = 2, label = [], children = [], node_backward = Noop,
        operation = OpLeaf\<rparr>,
     \<lparr>data = Num (- 2), grad = 1, label = [], children = [1, 2],
        node_backward = MulBackward 1 2 3, operation = OpMul\<rparr>,
     \<lparr>data = Num 1, grad = 1, label = [], children = [0, 3],
        node_backward = AddBackward 0 3 4, operation = OpAdd\<rparr>,
     \<lparr>data = Num (- 1), grad = 3, label = [], children = [], node_backward = Noop,
        operation = OpLeaf\<rparr>,
     \<lparr>data = Num (- 3), grad = 1, label = [], children = [0, 5],
        node_backward = MulBackward 0 5 6, operation = OpMul\<rparr>],
    [6, 5, 0])"
proof -
  have o: "backward_order (heap_of (backward sub_neg_heap 4)) 6 = [6, 5, 0]"
    using backward_order_forget[OF backward_forget, of sub_neg_heap 4 6]
    by (simp add: sub_neg_order6)
  show ?thesis
    unfolding backward_unfold[of "heap_of (backward sub_neg_heap 4)" 6] o
    unfolding sub_neg_backward4 heap_of_def
    by (simp add: set_grad_def add_grad_def grad_of_def data_of_def)
qed

theorem backward_twice_gradient_witness:
  "wf_heap separate_heap \<and> 0 < length separate_heap \<and> 4 < length separate_heap \<and>
   8 < length separate_heap \<and>
   outcome_of (backward separate_heap 4) = Inr () \<and>
   outcome_of (backward (heap_of (backward separate_heap 4)) 8) = Inr () \<and>
   grad_of separate_heap 0 = 0 \<and>
   gradient separate_heap 4 0 = 2 \<and> gradient separate_heap 8 0 = 20 \<and>
   grad_of (heap_of (backward separate_heap 4)) 0 = 2 \<and>
   grad_of (heap_of (backward (heap_of (backward separate_heap 4)) 8)) 0 = 22 \<and>
   wf_heap sub_neg_heap \<and> 0 < length sub_neg_heap \<and> 4 < length sub_neg_heap \<and>
   6 < length sub_neg_heap \<and>
   outcome_of (backward sub_neg_heap 4) = Inr () \<and>
   outcome_of (backward (heap_of (backward sub_neg_heap 4)) 6) = Inr () \<and>
   grad_of sub_neg_heap 0 = 0 \<and>
   gradient sub_neg_heap 4 0 = 1 \<and> gradient sub_neg_heap 6 0 = - 1 \<and>
   grad_of (heap_of (backward sub_neg_heap 4)) 0 = 1 \<and>
   grad_of (heap_of (backward (heap_of (backward sub_neg_heap 4)) 6)) 0 = 0"
proof -
  have l: "0 < length separate_heap" "4 < length separate_heap" "8 < length separate_heap"
    by (simp_all add: separate_heap_nodes)
  have n: "(0::nat) \<noteq> 4" "(0::nat) \<noteq> 8" by simp_all
  have o1: "outcome_of (backward separate_heap 4) = Inr ()"
    by (simp add: separate_first outcome_of_def)
  have o2: "outcome_of (backward (heap_of (backward separate_heap 4)) 8) = Inr ()"
    unfolding separate_second by (simp add: outcome_of_def)
  note o = o1 o2
  have g: "grad_of separate_heap 0 = 0" "grad_of separate_heap (Suc 0) = 0"
    "grad_of separate_heap 2 = 0" "grad_of separate_heap 3 = 0" "grad_of separate_heap 5 = 0"
    "grad_of separate_heap 6 = 0" "grad_of separate_heap 7 = 0"
    by (simp_all add: separate_heap_nodes grad_of_def)
  have r4: "reachable separate_heap 4 = {4, 3, 2, 1, 0}"
    using backward_order_set[of separate_heap 4] by (simp add: separate_order4)
  have r8: "reachable separate_heap 8 = {8, 7, 6, 5, 0}"
    using backward_order_set[of separate_heap 8] by (simp add: separate_order8)
  have f1: "\<forall>n \<in> reachable separate_heap 4.
      n \<noteq> 4 \<and> n \<noteq> 0 \<and> 0 \<in> reachable separate_heap n \<longrightarrow> grad_of separate_heap n = 0"
    unfolding r4 using g by simp
  have f2: "\<forall>n \<in> reachable separate_heap 8.
      n \<noteq> 8 \<and> n \<noteq> 0 \<and> 0 \<in> reachable separate_heap n \<longrightarrow>
      grad_of separate_heap n = 0 \<and> n \<notin> reachable separate_heap 4"
    unfolding r4 r8 using g by simp
  have l': "0 < length sub_neg_heap" "4 < length sub_neg_heap" "6 < length sub_neg_heap"
    by (simp_all add: sub_neg_heap_nodes)
  have n': "(0::nat) \<noteq> 4" "(0::nat) \<noteq> 6" by simp_all
  have o1': "outcome_of (backward sub_neg_heap 4) = Inr ()"
    by (simp add: sub_neg_backward4 outcome_of_def)
  have o2': "outcome_of (backward (heap_of (backward sub_neg_heap 4)) 6) = Inr ()"
    unfolding sub_neg_backward6 by (simp add: outcome_of_def)
  note o' = o1' o2' 
  have g': "grad_of sub_neg_heap 0 = 0" "grad_of sub_neg_heap (Suc 0) = 0"
    "grad_of sub_neg_heap 2 = 0" "grad_of sub_neg_heap 3 = 0" "grad_of sub_neg_heap 5 = 0"
    by (simp_all add: sub_neg_heap_nodes grad_of_def)
  have r4': "reachable sub_neg_heap 4 = {4, 3, 2, 1, 0}"
    using backward_order_set[of sub_neg_heap 4] by (simp add: sub_neg_order4)
  have r6': "reachable sub_neg_heap 6 = {6, 5, 0}"
    using backward_order_set[of sub_neg_heap 6] by (simp add: sub_neg_order6)
  have f1': "\<forall>n \<in> reachable sub_neg_heap 4.
      n \<noteq> 4 \<and> n \<noteq> 0 \<and> 0 \<in> reachable sub_neg_heap n \<longrightarrow> grad_of sub_neg_heap n = 0"
    unfolding r4' using g' by simp
  have f2': "\<forall>n \<in> reachable sub_neg_heap 6.
      n \<noteq> 6 \<and> n \<noteq> 0 \<and> 0 \<in> reachable sub_neg_heap n \<longrightarrow>
      grad_of sub_neg_heap n = 0 \<and> n \<notin> reachable sub_neg_heap 4"
    unfolding r4' r6' using g' by simp
  show ?thesis
    using backward_twice_gradient[OF separate_wf l n o f1 f2]
      backward_twice_gradient[OF sub_neg_wf l' n' o' f1' f2']
      separate_wf sub_neg_wf l l' o o' g(1) g'(1)
      separate_gradient4 separate_gradient8 sub_neg_gradient4 sub_neg_gradient6
    by simp
qed

section \<open>Division, exponential and mixed operands\<close>

lemma data_of_snoc_old [simp]: "n < length h \<Longrightarrow> data_of (h @ xs) n = data_of h n"
  by (simp add: data_of_def nth_append)

lemma data_of_snoc_new [simp]: "data_of (h @ [nd]) (length h) = data nd"
  by (simp add: data_of_def)

lemma floor_minus_one_real [simp]: "\<lfloor>- 1 :: real\<rfloor> = - 1"
  by linarith

lemma float_pow_minus_one: "v \<noteq> 0 \<Longrightarrow> float_pow v (- 1) = Inr (1 / v)"
  by (simp add: float_pow_def power_int_minus field_simps)

lemma float_pow_zero_minus_one: "float_pow 0 (- 1) = Inl ZeroDivisionError"
  by (simp add: float_pow_def)

lemma float_max_less: "float_max < 2 ^ 1024"
proof -
  have "float_max < 2 ^ 53 * 2 ^ 971"
    unfolding float_max_def by (rule mult_strict_right_mono) simp_all
  also have "\<dots> = 2 ^ 1024" by (simp add: power_add [symmetric])
  finally show ?thesis .
qed

lemma exp_2000_overflow: "float_max < exp (2000 :: real)"
proof -
  have "(2 :: real) ^ 1024 \<le> 2 ^ 2000" by (rule power_increasing) simp_all
  also have "\<dots> \<le> exp (1 :: real) ^ 2000"
    using exp_ge_add_one_self [of "1 :: real"] by (intro power_mono) simp_all
  also have "\<dots> = exp (of_nat 2000 * (1 :: real))" by (rule exp_of_nat_mult [symmetric])
  also have "\<dots> = exp (2000 :: real)" by simp
  finally show ?thesis using float_max_less by linarith
qed

text \<open>
  Claim C5, as amended. For all nodes \<^verbatim>\<open>a\<close> and \<^verbatim>\<open>b\<close> with \<^verbatim>\<open>b.data = 0\<close>, \<^verbatim>\<open>a / b\<close> raises
  \<^verbatim>\<open>ZeroDivisionError\<close>: \<^verbatim>\<open>__truediv__\<close> computes \<^verbatim>\<open>b ** -1\<close> first, and Python's
  \<^verbatim>\<open>0 ** -1\<close> raises. No node is created and none is changed (for the plain number \<open>0\<close>
  as divisor the promoted leaf has been allocated). With \<^verbatim>\<open>b.data\<close> not zero, the quotient
  node is built with data \<^verbatim>\<open>a.data / b.data\<close>. For every node \<^verbatim>\<open>a\<close> whose \<open>exp (a.data)\<close> is
  beyond the largest finite double, \<^verbatim>\<open>a.exp()\<close> raises \<^verbatim>\<open>OverflowError\<close> (it is \<^verbatim>\<open>math.exp\<close>
  that raises), again with no node created and none changed; otherwise \<^verbatim>\<open>exp\<close> builds its
  node with data \<open>exp (a.data)\<close>. So neither operation stores an infinity or a NaN. The
  results are those of real arithmetic: rounding and the range of a float power are not
  part of the embedding.
\<close>

theorem truediv_zero_raises:
  assumes a: "a < length h" and b: "b < length h" and u: "data_of h a = Num u"
  shows "(data_of h b = Num 0 \<longrightarrow> Value_truediv h a (Ref b) = (Inl ZeroDivisionError, h)) \<and>
         Value_truediv h a (Lit (Num 0)) = (Inl ZeroDivisionError, snd (Value h (Num 0))) \<and>
         (\<forall>v. data_of h b = Num v \<and> v \<noteq> 0 \<longrightarrow>
            fst (Value_truediv h a (Ref b)) = Inr (Suc (length h)) \<and>
            data_of (snd (Value_truediv h a (Ref b))) (Suc (length h)) = Num (u / v)) \<and>
         (float_max < exp u \<longrightarrow> exp_value h a = (Inl OverflowError, h)) \<and>
         (exp u \<le> float_max \<longrightarrow>
            fst (exp_value h a) = Inr (length h) \<and>
            data_of (snd (exp_value h a)) (length h) = Num (exp u))"
proof -
  have 1: "Value_truediv h a (Ref b) = (Inl ZeroDivisionError, h)" if "data_of h b = Num 0"
    using that by (simp add: Value_truediv_def Value_pow_def float_pow_zero_minus_one)
  have 2: "Value_truediv h a (Lit (Num 0)) = (Inl ZeroDivisionError, snd (Value h (Num 0)))"
    by (simp add: Value_truediv_def Value_pow_def Value_def Value_init_def
        float_pow_zero_minus_one)
  have 3: "fst (Value_truediv h a (Ref b)) = Inr (Suc (length h)) \<and>
      data_of (snd (Value_truediv h a (Ref b))) (Suc (length h)) = Num (u / v)"
    if "data_of h b = Num v" "v \<noteq> 0" for v
    using that a b u
    by (simp add: Value_truediv_def Value_pow_def Value_mul_def Value_init_def
        float_pow_minus_one data_of_def nth_append)
  have 4: "exp_value h a = (Inl OverflowError, h)" if "float_max < exp u"
    using u that by (simp add: exp_value_def math_exp_def)
  have 5: "fst (exp_value h a) = Inr (length h) \<and>
      data_of (snd (exp_value h a)) (length h) = Num (exp u)" if "exp u \<le> float_max"
    using u that by (simp add: exp_value_def math_exp_def Value_init_def)
  show ?thesis using 1 2 3 4 5 by blast
qed

text \<open>The claim as stated fails for \<^verbatim>\<open>Value(6) / Value(0)\<close> and for \<^verbatim>\<open>Value(2000).exp()\<close>:
  both raise, and the heap is left as it was.\<close>

theorem truediv_zero_counterexample:
  "data_of div_zero_heap 1 = Num 0 \<and>
   Value_truediv div_zero_heap 0 (Ref 1) = (Inl ZeroDivisionError, div_zero_heap) \<and>
   data_of exp_overflow_heap 0 = Num 2000 \<and>
   exp_value exp_overflow_heap 0 = (Inl OverflowError, exp_overflow_heap)"
proof -
  have "data_of div_zero_heap 1 = Num 0 \<and>
      Value_truediv div_zero_heap 0 (Ref 1) = (Inl ZeroDivisionError, div_zero_heap)"
    by (simp add: div_zero_heap_def engine_defs float_pow_def)
  moreover have d: "data_of exp_overflow_heap 0 = Num 2000"
    by (simp add: exp_overflow_heap_def Value_def Value_init_def data_of_def)
  moreover have "exp_value exp_overflow_heap 0 = (Inl OverflowError, exp_overflow_heap)"
    using d exp_2000_overflow by (simp add: exp_value_def math_exp_def)
  ultimately show ?thesis by simp
qed

theorem truediv_zero_raises_witness:
  "0 < length div_zero_heap \<and> 1 < length div_zero_heap \<and>
   data_of div_zero_heap 0 = Num 6 \<and> data_of div_zero_heap 1 = Num 0 \<and>
   Value_truediv div_zero_heap 0 (Ref 1) = (Inl ZeroDivisionError, div_zero_heap) \<and>
   fst (Value_truediv div_zero_heap 1 (Ref 0)) = Inr 3 \<and>
   data_of (snd (Value_truediv div_zero_heap 1 (Ref 0))) 3 = Num 0 \<and>
   exp (0 :: real) \<le> float_max \<and>
   fst (exp_value div_zero_heap 1) = Inr 2 \<and>
   data_of (snd (exp_value div_zero_heap 1)) 2 = Num 1 \<and>
   0 < length exp_overflow_heap \<and> data_of exp_overflow_heap 0 = Num 2000 \<and>
   float_max < exp (2000 :: real) \<and>
   exp_value exp_overflow_heap 0 = (Inl OverflowError, exp_overflow_heap)"
proof -
  have l: "0 < length div_zero_heap" "1 < length div_zero_heap" "length div_zero_heap = 2"
    by (simp_all add: div_zero_heap_def engine_defs)
  have d: "data_of div_zero_heap 0 = Num 6" "data_of div_zero_heap 1 = Num 0"
    by (simp_all add: div_zero_heap_def engine_defs)
  have l2: "0 < length exp_overflow_heap"
    and d2: "data_of exp_overflow_heap 0 = Num 2000"
    by (simp_all add: exp_overflow_heap_def Value_def Value_init_def data_of_def)
  have s: "Suc 2 = 3" by simp
  have e: "exp (0 :: real) \<le> float_max" using float_max_ge_one by simp
  show ?thesis
    using truediv_zero_raises[OF l(1) l(2) d(1)] truediv_zero_raises[OF l(2) l(1) d(2)]
      truediv_zero_raises[OF l2 l2 d2] l d l2 d2 e exp_2000_overflow
    by (simp add: s)
qed

text \<open>
  Claim C6 holds of the specification and not of the code. \<^verbatim>\<open>__rsub__\<close> returns
  \<^verbatim>\<open>self.__sub__(other)\<close>, so \<^verbatim>\<open>5 - Value(3)\<close> is a node with data \<open>3 - 5 = - 2\<close> where the
  claim says \<open>5 - 3 = 2\<close>; and the class has no \<^verbatim>\<open>__rtruediv__\<close>, so \<^verbatim>\<open>6 / Value(3)\<close>
  raises \<^verbatim>\<open>TypeError\<close>.
\<close>

theorem rsub_computes_reversed:
  "data_of three_heap 0 = Num 3 \<and>
   fst (Value_rsub three_heap 0 (Lit (Num 5))) = Inr 4 \<and>
   data_of (snd (Value_rsub three_heap 0 (Lit (Num 5)))) 4 = Num (- 2) \<and>
   fst (reflected three_heap Minus 5 0) = Inr 4 \<and>
   data_of (snd (reflected three_heap Minus 5 0)) 4 = Num (- 2) \<and>
   fst (reflected three_heap Divide 6 0) = Inl TypeError"
  by (simp add: three_heap_def reflected_def engine_defs)

text \<open>The other mixed forms give the data the claim states: \<^verbatim>\<open>a + r\<close>, \<^verbatim>\<open>r + a\<close>,
  \<^verbatim>\<open>a * r\<close>, \<^verbatim>\<open>r * a\<close>, \<^verbatim>\<open>a - r\<close> and \<^verbatim>\<open>a / r\<close> (the sixth line is the reversed
  \<^verbatim>\<open>r - a\<close> again).\<close>

lemma mixed_operands_data:
  assumes a: "a < length h" and u: "data_of h a = Num u"
  shows "data_of (snd (Value_add h a (Lit (Num r)))) (Suc (length h)) = Num (u + r)"
    and "data_of (snd (Value_radd h a (Lit (Num r)))) (Suc (length h)) = Num (r + u)"
    and "data_of (snd (Value_mul h a (Lit (Num r)))) (Suc (length h)) = Num (u * r)"
    and "data_of (snd (Value_rmul h a (Lit (Num r)))) (Suc (length h)) = Num (r * u)"
    and "data_of (snd (Value_sub h a (Lit (Num r)))) (length h + 3) = Num (u - r)"
    and "data_of (snd (Value_rsub h a (Lit (Num r)))) (length h + 3) = Num (u - r)"
    and "r \<noteq> 0 \<Longrightarrow>
         data_of (snd (Value_truediv h a (Lit (Num r)))) (length h + 2) = Num (u / r)"
  using a u
  by (simp_all add: engine_defs float_pow_minus_one nth_append numeral_3_eq_3
      eval_nat_numeral)

section \<open>Invalid operands\<close>

text \<open>
  Claim C7 holds of the specification and not of the code. \<^verbatim>\<open>__add__\<close> and \<^verbatim>\<open>__mul__\<close>
  lack the assertion \<^verbatim>\<open>isinstance(other, (int, float))\<close> that \<^verbatim>\<open>__sub__\<close>, \<^verbatim>\<open>__truediv__\<close>,
  \<^verbatim>\<open>__radd__\<close>, \<^verbatim>\<open>__rmul__\<close> and \<^verbatim>\<open>__pow__\<close> run first: \<^verbatim>\<open>Value(3) + None\<close> and
  \<^verbatim>\<open>Value(3) * None\<close> have allocated the leaf \<^verbatim>\<open>Value(None)\<close> when the arithmetic on the data
  raises \<^verbatim>\<open>TypeError\<close>, where the claim has the operation fail before any node is created;
  \<^verbatim>\<open>Value(3) - None\<close> fails in its assertion with the heap as it was.
\<close>

theorem add_invalid_allocates:
  "fst (Value_add three_heap 0 (Lit NotNum)) = Inl TypeError \<and>
   length three_heap = 1 \<and>
   length (snd (Value_add three_heap 0 (Lit NotNum))) = 2 \<and>
   data_of (snd (Value_add three_heap 0 (Lit NotNum))) 1 = NotNum \<and>
   fst (Value_mul three_heap 0 (Lit NotNum)) = Inl TypeError \<and>
   length (snd (Value_mul three_heap 0 (Lit NotNum))) = 2 \<and>
   Value_sub three_heap 0 (Lit NotNum) = (Inl AssertionError, three_heap)"
  by (simp add: three_heap_def engine_defs)

text \<open>
  What every operator does with an operand that is neither a \<^verbatim>\<open>Value\<close> nor a number, and
  \<^verbatim>\<open>**\<close> also with a \<^verbatim>\<open>Value\<close> as exponent (and the reflected \<^verbatim>\<open>+\<close> and \<^verbatim>\<open>*\<close> with a
  \<^verbatim>\<open>Value\<close> as other operand): no existing node is changed and no result node is created.
  \<^verbatim>\<open>__pow__\<close>, \<^verbatim>\<open>__radd__\<close>, \<^verbatim>\<open>__rmul__\<close>, \<^verbatim>\<open>__sub__\<close>, \<^verbatim>\<open>__rsub__\<close> and \<^verbatim>\<open>__truediv__\<close> fail in
  their assertion, with the heap as it was; \<^verbatim>\<open>__add__\<close> and \<^verbatim>\<open>__mul__\<close> fail with
  \<^verbatim>\<open>TypeError\<close> after the promoted leaf has been appended.
\<close>

theorem invalid_operand_failure:
  assumes "\<not> is_number b" and "\<not> is_Value b"
  shows "Value_pow h a b = (Inl AssertionError, h) \<and>
         Value_pow h a (Ref r) = (Inl AssertionError, h) \<and>
         Value_radd h a b = (Inl AssertionError, h) \<and>
         Value_radd h a (Ref r) = (Inl AssertionError, h) \<and>
         Value_rmul h a b = (Inl AssertionError, h) \<and>
         Value_rmul h a (Ref r) = (Inl AssertionError, h) \<and>
         Value_sub h a b = (Inl AssertionError, h) \<and>
         Value_rsub h a b = (Inl AssertionError, h) \<and>
         Value_truediv h a b = (Inl AssertionError, h) \<and>
         Value_add h a b = (Inl TypeError, snd (Value h NotNum)) \<and>
         Value_mul h a b = (Inl TypeError, snd (Value h NotNum)) \<and>
         snd (Value h NotNum) =
           h @ [\<lparr>data = NotNum, grad = 0, label = [], children = [], node_backward = Noop,
                 operation = OpLeaf\<rparr>]"
proof -
  have b: "b = Lit NotNum" using assms by (cases b rule: is_number.cases) auto
  have pa: "\<And>x. py_add x NotNum = Inl TypeError" "\<And>x. py_mul x NotNum = Inl TypeError"
    by (case_tac x; simp)+
  show ?thesis
    unfolding b
    by (simp add: Value_pow_def Value_radd_def Value_rmul_def Value_sub_def Value_rsub_def
        Value_truediv_def Value_add_def Value_mul_def Value_def Value_init_def pa)
qed

theorem invalid_operand_failure_witness:
  "\<not> is_number (Lit NotNum) \<and> \<not> is_Value (Lit NotNum) \<and>
   Value_pow three_heap 0 (Lit NotNum) = (Inl AssertionError, three_heap) \<and>
   Value_sub three_heap 0 (Lit NotNum) = (Inl AssertionError, three_heap) \<and>
   Value_mul three_heap 0 (Lit NotNum) = (Inl TypeError, snd (Value three_heap NotNum))"
  using invalid_operand_failure[of "Lit NotNum" three_heap 0 0] by simp

section \<open>Promoted numbers\<close>

lemma build_graph_extra_visited:
  "S \<inter> reachable h v = {} \<Longrightarrow>
     build_graph h v (fst st \<union> S, ns0 @ snd st) =
       (fst (build_graph h v st) \<union> S, ns0 @ snd (build_graph h v st))"
  "(\<forall>c \<in> set cs. S \<inter> reachable h c = {}) \<Longrightarrow>
     build_children h cs (fst st \<union> S, ns0 @ snd st) =
       (fst (build_children h cs st) \<union> S, ns0 @ snd (build_children h cs st))"
proof (induction h v st and h cs st arbitrary: S ns0 and S ns0
    rule: build_graph_build_children.induct)
  case (1 h v visited nodes)
  show ?case
  proof (cases "v \<in> visited")
    case True
    then show ?thesis by (simp add: build_graph_visited)
  next
    case False
    have vS: "v \<notin> S" using "1.prems" reachable_self[of v h] by blast
    have ch: "\<forall>c \<in> set (children_of h v). S \<inter> reachable h c = {}"
    proof
      fix c assume c: "c \<in> set (children_of h v)"
      have "(v, c) \<in> edges h" using c by (simp add: edges_def)
      then have "reachable h c \<subseteq> reachable h v"
        unfolding reachable_def by (auto intro: converse_rtrancl_into_rtrancl)
      then show "S \<inter> reachable h c = {}" using "1.prems" by blast
    qed
    have ih: "build_children h (children_of h v) (insert v visited \<union> S, ns0 @ nodes) =
        (fst (build_children h (children_of h v) (insert v visited, nodes)) \<union> S,
         ns0 @ snd (build_children h (children_of h v) (insert v visited, nodes)))"
      using "1.IH"[OF False ch, of ns0] by simp
    have "v \<notin> fst (visited \<union> S, ns0 @ nodes)" using False vS by simp
    then show ?thesis
      using False ih by (simp add: build_graph_unvisited)
  qed
next
  case (2 h st)
  then show ?case by simp
next
  case (3 h c cs st)
  have 1: "build_graph h c (fst st \<union> S, ns0 @ snd st) =
      (fst (build_graph h c st) \<union> S, ns0 @ snd (build_graph h c st))"
    using "3.IH"(1)[of S ns0] "3.prems" by simp
  have 2: "build_children h cs (fst (build_graph h c st) \<union> S, ns0 @ snd (build_graph h c st)) =
      (fst (build_children h cs (build_graph h c st)) \<union> S,
       ns0 @ snd (build_children h cs (build_graph h c st)))"
    using "3.IH"(2)[of S ns0] "3.prems" by simp
  show ?case by (simp add: 1 2)
qed

lemma build_graph_fresh_start:
  assumes "S \<inter> reachable h v = {}"
  shows "snd (build_graph h v (S, ns0)) = ns0 @ snd (build_graph h v ({}, []))"
  using build_graph_extra_visited(1)[OF assms, of "({}, [])" ns0] by simp

lemma build_graph_fresh_start_fst:
  assumes "S \<inter> reachable h v = {}"
  shows "fst (build_graph h v (S, ns0)) = reachable h v \<union> S"
  using build_graph_extra_visited(1)[OF assms, of "({}, [])" ns0]
  by (simp add: build_graph_top(3))

lemma binary_order:
  assumes wf: "wf_heap h" and c: "children_of h r = [a, c]"
    and dis: "reachable h a \<inter> reachable h c = {}"
  shows "backward_order h r = r # backward_order h c @ backward_order h a"
proof -
  have lt: "a < r" "c < r" using wf_children_less[OF wf, of _ r] c by auto
  have ra: "r \<notin> reachable h a" using reachable_le[OF wf, of r a] lt by auto
  have rc: "r \<notin> reachable h c" using reachable_le[OF wf, of r c] lt by auto
  let ?s1 = "build_graph h a ({r}, [])"
  have s1: "snd ?s1 = snd (build_graph h a ({}, []))" "fst ?s1 = reachable h a \<union> {r}"
    using build_graph_fresh_start[of "{r}" h a "[]"]
      build_graph_fresh_start_fst[of "{r}" h a "[]"] ra by auto
  have d2: "fst ?s1 \<inter> reachable h c = {}" using s1(2) dis rc by auto
  have s2: "snd (build_graph h c ?s1) = snd ?s1 @ snd (build_graph h c ({}, []))"
    using build_graph_fresh_start[OF d2, of "snd ?s1"] by simp
  have "snd (build_graph h r ({}, [])) = snd (build_graph h c ?s1) @ [r]"
    by (simp add: build_graph_unvisited c)
  then show ?thesis by (simp add: backward_order_def s1(1) s2)
qed

lemma leaf_order:
  assumes "children_of h r = []"
  shows "backward_order h r = [r]"
  by (simp add: backward_order_def build_graph_unvisited assms)

lemma Value_leaf: "Value h d = (length h, h @ [leaf d])"
  by (simp add: Value_def Value_init_def leaf_def)

lemma wf_node_leaf [simp]: "wf_node n (leaf d)"
  by (simp add: wf_node_def leaf_def)

lemma reachable_leaf:
  assumes "children_of h r = []"
  shows "reachable h r = {r}"
  using backward_order_set[of h r] leaf_order[OF assms] by simp

lemma reachable_old_below:
  assumes "wf_heap h'" and "a < l" and "n \<in> reachable h' a"
  shows "n < l"
  using reachable_le[OF assms(1,3)] assms(2) by simp

lemma backward_split_head:
  assumes wf: "wf_heap h'" and r: "r < length h'" and x: "x < length h'"
    and ord: "backward_order h' r = hd_part @ tl_part"
    and hd: "backward_loop (set_grad h' r 1) hd_part [] = (Inr (), hH, cs)"
    and below: "\<forall>n \<in> set tl_part. n \<le> x"
  shows "grad_of (heap_of (backward h' r)) x = grad_of hH x"
proof -
  have f: "map forget_grad hH = map forget_grad h'"
    using backward_loop_forget[of "set_grad h' r 1" hd_part "[]"] hd by simp
  have wfH: "wf_heap hH" by (rule wf_heap_forget[OF f wf])
  have len: "length hH = length h'" using f by (metis length_map)
  have "backward h' r = backward_loop hH tl_part cs"
    unfolding backward_unfold ord by (simp add: backward_loop_append hd)
  moreover have "fst (snd (backward_loop hH tl_part cs)) ! x = hH ! x"
    by (rule backward_loop_below[OF wfH _ below]) (use x len in simp)
  ultimately show ?thesis by (simp add: heap_of_def grad_of_def)
qed

lemma add_promoted:
  assumes wf: "wf_heap h" and a: "a < length h" and u: "data_of h a = Num u"
  shows "fst (Value_add h a (Lit (Num v))) = Inr (Suc (length h)) \<and>
         take (length h) (snd (Value_add h a (Lit (Num v)))) = h \<and>
         snd (Value_add h a (Lit (Num v))) ! length h = leaf (Num v) \<and>
         children_of (snd (Value_add h a (Lit (Num v)))) (Suc (length h)) = [a, length h] \<and>
         grad_of (heap_of (backward (snd (Value_add h a (Lit (Num v)))) (Suc (length h))))
           (length h) = 1"
proof -
  let ?l = "length h"
  define out where "out = \<lparr>data = Num (u + v), grad = 0, label = [], children = [a, ?l],
      node_backward = AddBackward a ?l (Suc ?l), operation = OpAdd\<rparr>"
  let ?h' = "h @ [leaf (Num v), out]"
  have ev: "Value_add h a (Lit (Num v)) = (Inr (Suc ?l), ?h')"
    using a u
    by (simp add: Value_add_def Value_leaf Value_init_def out_def data_of_def leaf_def
        nth_append)
  have wf1: "wf_heap (h @ [leaf (Num v)])" using wf by (intro wf_heap_snoc) simp_all
  have wf': "wf_heap ?h'"
    using wf_heap_snoc[OF wf1, of out] a by (simp add: wf_node_def out_def)
  have co: "children_of ?h' (Suc ?l) = [a, ?l]"
    by (simp add: children_of_def nth_append out_def)
  have cl: "children_of ?h' ?l = []" by (simp add: children_of_def nth_append leaf_def)
  have rl: "reachable ?h' ?l = {?l}" by (rule reachable_leaf[OF cl])
  have dis: "reachable ?h' a \<inter> reachable ?h' ?l = {}"
    using reachable_old_below[OF wf' a] rl by auto
  have ord: "backward_order ?h' (Suc ?l) = [Suc ?l, ?l] @ backward_order ?h' a"
    using binary_order[OF wf' co dis] leaf_order[OF cl] by simp
  have below: "\<forall>n \<in> set (backward_order ?h' a). n \<le> ?l"
    using reachable_old_below[OF wf' a] by (auto simp: backward_order_set intro: less_imp_le)
  let ?hH = "add_grad (add_grad (set_grad ?h' (Suc ?l) 1) a 1) ?l 1"
  have hd: "backward_loop (set_grad ?h' (Suc ?l) 1) [Suc ?l, ?l] [] = (Inr (), ?hH, [Suc ?l, ?l])"
    using a
    by (simp add: set_grad_def add_grad_def grad_of_def nth_append out_def leaf_def
        list_update_append Let_def)
  have "grad_of (heap_of (backward ?h' (Suc ?l))) ?l = grad_of ?hH ?l"
    by (rule backward_split_head[OF wf' _ _ ord hd below]) simp_all
  also have "\<dots> = 1"
    using a by (simp add: grad_of_def add_grad_def set_grad_def nth_append leaf_def
        list_update_append)
  finally show ?thesis using ev co by (simp add: nth_append)
qed

lemma floor_minus_two_real [simp]: "\<lfloor>- 2 :: real\<rfloor> = - 2"
  by linarith

lemma float_pow_minus_two: "v \<noteq> 0 \<Longrightarrow> float_pow v (- 2) = Inr (1 / v ^ 2)"
  by (simp add: float_pow_def power_int_minus field_simps)

lemma mul_promoted:
  assumes wf: "wf_heap h" and a: "a < length h" and u: "data_of h a = Num u"
  shows "fst (Value_mul h a (Lit (Num v))) = Inr (Suc (length h)) \<and>
         take (length h) (snd (Value_mul h a (Lit (Num v)))) = h \<and>
         snd (Value_mul h a (Lit (Num v))) ! length h = leaf (Num v) \<and>
         children_of (snd (Value_mul h a (Lit (Num v)))) (Suc (length h)) = [a, length h] \<and>
         grad_of (heap_of (backward (snd (Value_mul h a (Lit (Num v)))) (Suc (length h))))
           (length h) = u"
proof -
  let ?l = "length h"
  define out where "out = \<lparr>data = Num (u * v), grad = 0, label = [], children = [a, ?l],
      node_backward = MulBackward a ?l (Suc ?l), operation = OpMul\<rparr>"
  let ?h' = "h @ [leaf (Num v), out]"
  have ev: "Value_mul h a (Lit (Num v)) = (Inr (Suc ?l), ?h')"
    using a u
    by (simp add: Value_mul_def Value_leaf Value_init_def out_def data_of_def leaf_def
        nth_append)
  have wf1: "wf_heap (h @ [leaf (Num v)])" using wf by (intro wf_heap_snoc) simp_all
  have wf': "wf_heap ?h'"
    using wf_heap_snoc[OF wf1, of out] a by (simp add: wf_node_def out_def)
  have co: "children_of ?h' (Suc ?l) = [a, ?l]"
    by (simp add: children_of_def nth_append out_def)
  have cl: "children_of ?h' ?l = []" by (simp add: children_of_def nth_append leaf_def)
  have rl: "reachable ?h' ?l = {?l}" by (rule reachable_leaf[OF cl])
  have dis: "reachable ?h' a \<inter> reachable ?h' ?l = {}"
    using reachable_old_below[OF wf' a] rl by auto
  have ord: "backward_order ?h' (Suc ?l) = [Suc ?l, ?l] @ backward_order ?h' a"
    using binary_order[OF wf' co dis] leaf_order[OF cl] by simp
  have below: "\<forall>n \<in> set (backward_order ?h' a). n \<le> ?l"
    using reachable_old_below[OF wf' a] by (auto simp: backward_order_set intro: less_imp_le)
  let ?hH = "add_grad (add_grad (set_grad ?h' (Suc ?l) 1) a v) ?l u"
  have hd: "backward_loop (set_grad ?h' (Suc ?l) 1) [Suc ?l, ?l] [] = (Inr (), ?hH, [Suc ?l, ?l])"
    using a u
    by (simp add: set_grad_def add_grad_def grad_of_def data_of_def nth_append out_def leaf_def
        list_update_append Let_def)
  have "grad_of (heap_of (backward ?h' (Suc ?l))) ?l = grad_of ?hH ?l"
    by (rule backward_split_head[OF wf' _ _ ord hd below]) simp_all
  also have "\<dots> = u"
    using a by (simp add: grad_of_def add_grad_def set_grad_def nth_append leaf_def
        list_update_append)
  finally show ?thesis using ev co by (simp add: nth_append)
qed

lemma sub_promoted:
  assumes wf: "wf_heap h" and a: "a < length h" and u: "data_of h a = Num u"
  shows "fst (Value_sub h a (Lit (Num v))) = Inr (Suc (Suc (Suc (length h)))) \<and>
         take (length h) (snd (Value_sub h a (Lit (Num v)))) = h \<and>
         snd (Value_sub h a (Lit (Num v))) ! length h = leaf (Num v) \<and>
         children_of (snd (Value_sub h a (Lit (Num v)))) (Suc (Suc (Suc (length h)))) =
           [a, Suc (Suc (length h))] \<and>
         children_of (snd (Value_sub h a (Lit (Num v)))) (Suc (Suc (length h))) =
           [length h, Suc (length h)] \<and>
         grad_of (heap_of (backward (snd (Value_sub h a (Lit (Num v))))
           (Suc (Suc (Suc (length h)))))) (length h) = - 1"
proof -
  let ?l = "length h"
  let ?m = "Suc ?l"
  let ?n = "Suc (Suc ?l)"
  let ?o = "Suc (Suc (Suc ?l))"
  define neg where "neg = \<lparr>data = Num (v * - 1), grad = 0, label = [], children = [?l, ?m],
      node_backward = MulBackward ?l ?m ?n, operation = OpMul\<rparr>"
  define out where "out = \<lparr>data = Num (u + v * - 1), grad = 0, label = [], children = [a, ?n],
      node_backward = AddBackward a ?n ?o, operation = OpAdd\<rparr>"
  let ?h' = "h @ [leaf (Num v), leaf (Num (- 1)), neg, out]"
  have ev: "Value_sub h a (Lit (Num v)) = (Inr ?o, ?h')"
    using a u
    by (simp add: Value_sub_def Value_neg_def Value_mul_def Value_add_def Value_leaf
        Value_init_def out_def neg_def data_of_def leaf_def nth_append set_backward_def
        list_update_append)
  have wf1: "wf_heap (h @ [leaf (Num v)])" using wf by (intro wf_heap_snoc) simp_all
  have wf2: "wf_heap (h @ [leaf (Num v), leaf (Num (- 1))])"
    using wf_heap_snoc[OF wf1, of "leaf (Num (- 1))"] by simp
  have wf3: "wf_heap (h @ [leaf (Num v), leaf (Num (- 1)), neg])"
    using wf_heap_snoc[OF wf2, of neg] by (simp add: wf_node_def neg_def)
  have wf': "wf_heap ?h'"
    using wf_heap_snoc[OF wf3, of out] a by (simp add: wf_node_def out_def)
  have co: "children_of ?h' ?o = [a, ?n]"
    by (simp add: children_of_def nth_append out_def)
  have cn: "children_of ?h' ?n = [?l, ?m]"
    by (simp add: children_of_def nth_append neg_def)
  have cl: "children_of ?h' ?l = []" by (simp add: children_of_def nth_append leaf_def)
  have cm: "children_of ?h' ?m = []" by (simp add: children_of_def nth_append leaf_def)
  have on: "backward_order ?h' ?n = [?n, ?m, ?l]"
    using binary_order[OF wf' cn] reachable_leaf[OF cl] reachable_leaf[OF cm]
      leaf_order[OF cl] leaf_order[OF cm] by simp
  have rn: "reachable ?h' ?n = {?n, ?m, ?l}"
    using backward_order_set[of ?h' ?n] on by simp
  have dis: "reachable ?h' a \<inter> reachable ?h' ?n = {}"
    using reachable_old_below[OF wf' a] rn by fastforce
  have ord: "backward_order ?h' ?o = [?o, ?n, ?m, ?l] @ backward_order ?h' a"
    using binary_order[OF wf' co dis] on by simp
  have below: "\<forall>n \<in> set (backward_order ?h' a). n \<le> ?l"
    using reachable_old_below[OF wf' a] by (auto simp: backward_order_set intro: less_imp_le)
  let ?hH = "add_grad (add_grad (add_grad (add_grad (set_grad ?h' ?o 1) a 1) ?n 1) ?l (- 1)) ?m v"
  have hd: "backward_loop (set_grad ?h' ?o 1) [?o, ?n, ?m, ?l] [] = (Inr (), ?hH, [?o, ?n, ?m, ?l])"
    using a u
    by (simp add: set_grad_def add_grad_def grad_of_def data_of_def nth_append out_def neg_def
        leaf_def list_update_append Let_def)
  have "grad_of (heap_of (backward ?h' ?o)) ?l = grad_of ?hH ?l"
    by (rule backward_split_head[OF wf' _ _ ord hd below]) simp_all
  also have "\<dots> = - 1"
    using a by (simp add: grad_of_def add_grad_def set_grad_def nth_append leaf_def
        list_update_append)
  finally show ?thesis using ev co cn by (simp add: nth_append)
qed

lemma truediv_promoted:
  assumes wf: "wf_heap h" and a: "a < length h" and u: "data_of h a = Num u" and v: "v \<noteq> 0"
  shows "fst (Value_truediv h a (Lit (Num v))) = Inr (Suc (Suc (length h))) \<and>
         take (length h) (snd (Value_truediv h a (Lit (Num v)))) = h \<and>
         snd (Value_truediv h a (Lit (Num v))) ! length h = leaf (Num v) \<and>
         children_of (snd (Value_truediv h a (Lit (Num v)))) (Suc (Suc (length h))) =
           [a, Suc (length h)] \<and>
         children_of (snd (Value_truediv h a (Lit (Num v)))) (Suc (length h)) = [length h] \<and>
         grad_of (heap_of (backward (snd (Value_truediv h a (Lit (Num v))))
           (Suc (Suc (length h))))) (length h) = - u / v ^ 2"
proof -
  let ?l = "length h"
  let ?p = "Suc ?l"
  let ?o = "Suc (Suc ?l)"
  define pw where "pw = \<lparr>data = Num (1 / v), grad = 0, label = [], children = [?l],
      node_backward = PowBackward ?l ?p (- 1), operation = OpPow (- 1)\<rparr>"
  define out where "out = \<lparr>data = Num (u * (1 / v)), grad = 0, label = [], children = [a, ?p],
      node_backward = MulBackward a ?p ?o, operation = OpMul\<rparr>"
  let ?h' = "h @ [leaf (Num v), pw, out]"
  have ev: "Value_truediv h a (Lit (Num v)) = (Inr ?o, ?h')"
    using a u v
    by (simp add: Value_truediv_def Value_pow_def Value_mul_def Value_leaf
        Value_init_def out_def pw_def data_of_def leaf_def nth_append set_backward_def
        list_update_append float_pow_minus_one)
  have wf1: "wf_heap (h @ [leaf (Num v)])" using wf by (intro wf_heap_snoc) simp_all
  have wf2: "wf_heap (h @ [leaf (Num v), pw])"
    using wf_heap_snoc[OF wf1, of pw] by (simp add: wf_node_def pw_def)
  have wf': "wf_heap ?h'"
    using wf_heap_snoc[OF wf2, of out] a by (simp add: wf_node_def out_def)
  have co: "children_of ?h' ?o = [a, ?p]"
    by (simp add: children_of_def nth_append out_def)
  have cp: "children_of ?h' ?p = [?l]"
    by (simp add: children_of_def nth_append pw_def)
  have cl: "children_of ?h' ?l = []" by (simp add: children_of_def nth_append leaf_def)
  have op: "backward_order ?h' ?p = [?p, ?l]"
    using unary_order[OF wf' cp] reachable_leaf[OF cl] by auto
  have rp: "reachable ?h' ?p = {?p, ?l}"
    using backward_order_set[of ?h' ?p] op by simp
  have dis: "reachable ?h' a \<inter> reachable ?h' ?p = {}"
    using reachable_old_below[OF wf' a] rp by fastforce
  have ord: "backward_order ?h' ?o = [?o, ?p, ?l] @ backward_order ?h' a"
    using binary_order[OF wf' co dis] op by simp
  have below: "\<forall>n \<in> set (backward_order ?h' a). n \<le> ?l"
    using reachable_old_below[OF wf' a] by (auto simp: backward_order_set intro: less_imp_le)
  let ?hH = "add_grad (add_grad (add_grad (set_grad ?h' ?o 1) a (1 / v)) ?p u) ?l
      (u * - 1 * (1 / v ^ 2))"
  have m2: "(- 1 - 1 :: real) = - 2" by simp
  have hd: "backward_loop (set_grad ?h' ?o 1) [?o, ?p, ?l] [] = (Inr (), ?hH, [?o, ?p, ?l])"
    using a u v
    by (simp add: set_grad_def add_grad_def grad_of_def data_of_def nth_append out_def pw_def
        leaf_def list_update_append Let_def m2 float_pow_minus_two)
  have "grad_of (heap_of (backward ?h' ?o)) ?l = grad_of ?hH ?l"
    by (rule backward_split_head[OF wf' _ _ ord hd below]) simp_all
  also have "\<dots> = - u / v ^ 2"
    using a by (simp add: grad_of_def add_grad_def set_grad_def nth_append leaf_def
        list_update_append)
  finally show ?thesis using ev co cp by (simp add: nth_append)
qed

text \<open>
  Claim C10, as amended. Every promotion of a plain number \<open>v\<close> allocates a fresh leaf
  (data \<open>v\<close>, \<^verbatim>\<open>grad\<close> \<open>0\<close>, no children, the no-op closure) at an address no earlier
  promotion has, and leaves the existing nodes as they are. For \<^verbatim>\<open>+\<close> and \<^verbatim>\<open>*\<close> (also
  reflected, and the \<open>- 1\<close> of negation) the leaf is a child of the result; for \<^verbatim>\<open>-\<close> it
  is a child of the intermediate negation node and for \<^verbatim>\<open>/\<close> of the intermediate power
  node, which are children of the result. In each case \<^verbatim>\<open>backward\<close> from the result
  accumulates a gradient into the hidden leaf: \<open>1\<close> for \<^verbatim>\<open>a + v\<close>, \<^verbatim>\<open>a.data\<close> for
  \<^verbatim>\<open>a * v\<close>, \<open>- 1\<close> for \<^verbatim>\<open>a - v\<close> and \<open>- a.data / v\<^sup>2\<close> for \<^verbatim>\<open>a / v\<close>.
\<close>

theorem promoted_leaf:
  assumes wf: "wf_heap h" and a: "a < length h" and u: "data_of h a = Num u"
  shows "promote h (Lit (Num v)) = (length h, h @ [leaf (Num v)]) \<and>
         fst (promote (snd (promote h (Lit (Num v))) @ later) (Lit (Num v))) \<noteq>
           fst (promote h (Lit (Num v))) \<and>
         Value_radd h a (Lit (Num v)) = Value_add h a (Lit (Num v)) \<and>
         Value_rmul h a (Lit (Num v)) = Value_mul h a (Lit (Num v)) \<and>
         Value_neg h a = Value_mul h a (Lit (Num (- 1))) \<and>
         Value_rsub h a (Lit (Num v)) = Value_sub h a (Lit (Num v)) \<and>
         (fst (Value_add h a (Lit (Num v))) = Inr (Suc (length h)) \<and>
          take (length h) (snd (Value_add h a (Lit (Num v)))) = h \<and>
          snd (Value_add h a (Lit (Num v))) ! length h = leaf (Num v) \<and>
          children_of (snd (Value_add h a (Lit (Num v)))) (Suc (length h)) = [a, length h] \<and>
          grad_of (heap_of (backward (snd (Value_add h a (Lit (Num v)))) (Suc (length h))))
            (length h) = 1) \<and>
         (fst (Value_mul h a (Lit (Num v))) = Inr (Suc (length h)) \<and>
          take (length h) (snd (Value_mul h a (Lit (Num v)))) = h \<and>
          snd (Value_mul h a (Lit (Num v))) ! length h = leaf (Num v) \<and>
          children_of (snd (Value_mul h a (Lit (Num v)))) (Suc (length h)) = [a, length h] \<and>
          grad_of (heap_of (backward (snd (Value_mul h a (Lit (Num v)))) (Suc (length h))))
            (length h) = u) \<and>
         (fst (Value_sub h a (Lit (Num v))) = Inr (Suc (Suc (Suc (length h)))) \<and>
          take (length h) (snd (Value_sub h a (Lit (Num v)))) = h \<and>
          snd (Value_sub h a (Lit (Num v))) ! length h = leaf (Num v) \<and>
          children_of (snd (Value_sub h a (Lit (Num v)))) (Suc (Suc (Suc (length h)))) =
            [a, Suc (Suc (length h))] \<and>
          children_of (snd (Value_sub h a (Lit (Num v)))) (Suc (Suc (length h))) =
            [length h, Suc (length h)] \<and>
          grad_of (heap_of (backward (snd (Value_sub h a (Lit (Num v))))
            (Suc (Suc (Suc (length h)))))) (length h) = - 1) \<and>
         (v \<noteq> 0 \<longrightarrow>
          fst (Value_truediv h a (Lit (Num v))) = Inr (Suc (Suc (length h))) \<and>
          take (length h) (snd (Value_truediv h a (Lit (Num v)))) = h \<and>
          snd (Value_truediv h a (Lit (Num v))) ! length h = leaf (Num v) \<and>
          children_of (snd (Value_truediv h a (Lit (Num v)))) (Suc (Suc (length h))) =
            [a, Suc (length h)] \<and>
          children_of (snd (Value_truediv h a (Lit (Num v)))) (Suc (length h)) = [length h] \<and>
          grad_of (heap_of (backward (snd (Value_truediv h a (Lit (Num v))))
            (Suc (Suc (length h))))) (length h) = - u / v ^ 2)"
proof -
  have p: "promote h (Lit (Num v)) = (length h, h @ [leaf (Num v)])"
    by (simp add: Value_leaf)
  have q: "fst (promote (snd (promote h (Lit (Num v))) @ later) (Lit (Num v))) \<noteq>
      fst (promote h (Lit (Num v)))"
    by (simp add: Value_leaf)
  have r: "Value_radd h a (Lit (Num v)) = Value_add h a (Lit (Num v))"
    "Value_rmul h a (Lit (Num v)) = Value_mul h a (Lit (Num v))"
    "Value_neg h a = Value_mul h a (Lit (Num (- 1)))"
    "Value_rsub h a (Lit (Num v)) = Value_sub h a (Lit (Num v))"
    by (simp_all add: Value_radd_def Value_rmul_def Value_neg_def Value_rsub_def)
  show ?thesis
    using p q r add_promoted[OF wf a u, of v] mul_promoted[OF wf a u, of v]
      sub_promoted[OF wf a u, of v] truediv_promoted[OF wf a u, of v]
    by blast
qed

text \<open>
  The claim as stated fails for subtraction (and division): in \<^verbatim>\<open>Value(3) - 2\<close> the
  promoted leaf \<^verbatim>\<open>Value(2)\<close> (address 1) is a child of the negation node (address 3) and
  not of the result (address 4).
\<close>

theorem sub_promoted_not_child:
  "fst (Value_sub three_heap 0 (Lit (Num 2))) = Inr 4 \<and>
   snd (Value_sub three_heap 0 (Lit (Num 2))) ! 1 = leaf (Num 2) \<and>
   children_of (snd (Value_sub three_heap 0 (Lit (Num 2)))) 4 = [0, 3] \<and>
   children_of (snd (Value_sub three_heap 0 (Lit (Num 2)))) 3 = [1, 2] \<and>
   1 \<notin> set (children_of (snd (Value_sub three_heap 0 (Lit (Num 2)))) 4)"
  by (simp add: three_heap_def engine_defs children_of_def leaf_def)

theorem promoted_leaf_witness:
  "wf_heap three_heap \<and> 0 < length three_heap \<and> data_of three_heap 0 = Num 3 \<and>
   promote three_heap (Lit (Num 2)) = (1, three_heap @ [leaf (Num 2)]) \<and>
   children_of (snd (Value_add three_heap 0 (Lit (Num 2)))) 2 = [0, 1] \<and>
   grad_of (heap_of (backward (snd (Value_add three_heap 0 (Lit (Num 2)))) 2)) 1 = 1 \<and>
   grad_of (heap_of (backward (snd (Value_mul three_heap 0 (Lit (Num 2)))) 2)) 1 = 3 \<and>
   grad_of (heap_of (backward (snd (Value_sub three_heap 0 (Lit (Num 2)))) 4)) 1 = - 1 \<and>
   grad_of (heap_of (backward (snd (Value_truediv three_heap 0 (Lit (Num 2)))) 3)) 1 = - 3 / 4"
proof -
  have wf: "wf_heap three_heap" by (simp add: three_heap_def engine_defs wf_heap_def wf_node_def)
  have l: "0 < length three_heap" "length three_heap = 1" by (simp_all add: three_heap_def engine_defs)
  have d: "data_of three_heap 0 = Num 3" by (simp add: three_heap_def engine_defs)
  have n: "Suc (Suc 0) = 2" "Suc (Suc (Suc 0)) = 3" "Suc (Suc (Suc (Suc 0))) = 4"
    "(2::real) \<noteq> 0" "(2::real) ^ 2 = 4" by simp_all
  note t = promoted_leaf[OF wf l(1) d, of 2, unfolded l(2)]
  show ?thesis using t wf l d by (simp add: n)
qed

end
